theory Spec2Isabelle
  imports Main
begin

section \<open>JavaScript values and closures\<close>

text \<open>
  The three state constants of \<^verbatim>\<open>promise.js\<close> (lines 7 to 11).
\<close>

datatype pstate = PENDING | RESOLVED | REJECTED

text \<open>
  The values the library handles. A promise is a reference into the store of promise
  objects; \<open>ErrorObj name message\<close> is an error object (\<^verbatim>\<open>new Error(m)\<close>,
  \<^verbatim>\<open>new TypeError(m)\<close>); \<open>Obj m\<close> is a plain object, given by what reading its
  \<^verbatim>\<open>then\<close> member does; \<open>Fun f\<close> is a function without a \<^verbatim>\<open>then\<close> member of its own
  and \<open>FunObj f m\<close> the function \<open>f\<close> carrying the member \<open>m\<close> (a promise has the method
  of its class, an error object has no such member). Equality of \<open>PromiseRef\<close> values is
  reference equality.

  Every arrow function of the source is one constructor of \<open>func\<close>, holding the
  variables the closure captures:
  \<^item> \<open>ResolveCap this\<close> and \<open>RejectCap this\<close> are \<^verbatim>\<open>resolve\<close> and \<^verbatim>\<open>reject\<close> of the
    constructor (lines 95 and 108);
  \<^item> \<open>OnInnerFulfilled called promise2 resolve reject\<close> and \<open>OnInnerRejected called reject\<close>
    are the two callbacks \<^verbatim>\<open>resolvePromise\<close> hands to a thenable (lines 46 and 52),
    where \<open>called\<close> is the address of the flag they share;
  \<^item> \<open>PromiseThen\<close> is \<^verbatim>\<open>Promise.prototype.then\<close>;
  \<^item> \<open>User body\<close> is a function of the program using the library: an executor, a
    handler or the \<^verbatim>\<open>then\<close> of a foreign thenable. Its body is a list of statements
    over its parameters.
\<close>

datatype val =
    Undefined
  | Null
  | Num int
  | Str string
  | ErrorObj string string
  | PromiseRef nat
  | Obj member
  | Fun func
  | FunObj func member
and member =
    Absent
  | Data val
  | GetterThrows val
and func =
    ResolveCap nat
  | RejectCap nat
  | OnInnerFulfilled nat nat val val
  | OnInnerRejected nat val
  | PromiseThen
  | User "stmt list"
and stmt =
    Emit expr
  | Invoke expr "expr list"
  | Return expr
  | Throw expr
and expr =
    Const val
  | Arg nat
  | Message expr

datatype outcome = Returned val | Threw val

text \<open>
  The closures pushed on the callback queues (lines 179 and 189) and the closures handed
  to \<^verbatim>\<open>nextTick\<close> (lines 96, 109, 151 and 165). The queued closure and the scheduled
  closure of \<^verbatim>\<open>then\<close> have the same body, so a task of \<^verbatim>\<open>then\<close> holds a callback.
\<close>

datatype callback =
    CallOnFulfilled val val nat val val
  | CallOnRejected val val nat val val

datatype task =
    SettleResolved nat val
  | SettleRejected nat val
  | RunCallback callback

record promise =
  state :: pstate
  "value" :: val
  reason :: val
  resolvedCallbacks :: "callback list"
  rejectedCallbacks :: "callback list"

record dfd =
  dfd_promise :: val
  dfd_resolve :: val
  dfd_reject :: val

text \<open>
  The whole machine: the promise objects (a reference is an index), the \<^verbatim>\<open>called\<close>
  flags of the running and finished calls of \<^verbatim>\<open>resolvePromise\<close>, the \<^verbatim>\<open>dfd\<close>
  objects of \<^verbatim>\<open>Promise.deferred\<close>, the timer queue of \<^verbatim>\<open>setTimeout(fn, 0)\<close> in
  firing order, and what the user functions have emitted so far.
\<close>

record machine =
  promises :: "promise list"
  flags :: "bool list"
  dfds :: "dfd list"
  tasks :: "task list"
  trace :: "val list"

type_synonym caller = "func \<Rightarrow> val \<Rightarrow> val list \<Rightarrow> machine \<Rightarrow> (outcome \<times> machine) option"

section \<open>Utilities (lines 16 to 27)\<close>

fun isFunction :: "val \<Rightarrow> bool" where
  "isFunction (Fun f) = True"
| "isFunction (FunObj f m) = True"
| "isFunction v = False"

fun isObject :: "val \<Rightarrow> bool" where
  "isObject (ErrorObj n m) = True"
| "isObject (PromiseRef p) = True"
| "isObject (Obj m) = True"
| "isObject v = False"

definition nextTick :: "task \<Rightarrow> machine \<Rightarrow> machine" where
  "nextTick fn st = st\<lparr>tasks := tasks st @ [fn]\<rparr>"

text \<open>
  A reference is an index into the store. The library only ever holds references it
  allocated itself; a reference beyond the store (which only a forged constant in a user
  function could be) denotes no object, and a member read through it gives nothing.
\<close>

definition field_state :: "machine \<Rightarrow> val \<Rightarrow> pstate option" where
  "field_state st this =
     (case this of
        PromiseRef p \<Rightarrow> if p < length (promises st) then Some (state (promises st ! p)) else None
      | _ \<Rightarrow> None)"

definition field_value :: "machine \<Rightarrow> val \<Rightarrow> val" where
  "field_value st this =
     (case this of
        PromiseRef p \<Rightarrow> if p < length (promises st) then value (promises st ! p) else Undefined
      | _ \<Rightarrow> Undefined)"

definition field_reason :: "machine \<Rightarrow> val \<Rightarrow> val" where
  "field_reason st this =
     (case this of
        PromiseRef p \<Rightarrow> if p < length (promises st) then reason (promises st ! p) else Undefined
      | _ \<Rightarrow> Undefined)"

definition flag_set :: "machine \<Rightarrow> nat \<Rightarrow> bool" where
  "flag_set st called = (called < length (flags st) \<and> flags st ! called)"

definition set_flag :: "nat \<Rightarrow> machine \<Rightarrow> machine" where
  "set_flag called st = st\<lparr>flags := (flags st)[called := True]\<rparr>"

section \<open>The JavaScript around the library\<close>

text \<open>
  A missing argument reads as \<^verbatim>\<open>undefined\<close>. Calling a value that is not a function
  and reading a member of \<^verbatim>\<open>undefined\<close> or \<^verbatim>\<open>null\<close> throw a \<^verbatim>\<open>TypeError\<close> whose
  message is the engine's; the two constants below stand for those errors.
\<close>

definition arg :: "val list \<Rightarrow> nat \<Rightarrow> val" where
  "arg args i = (if i < length args then args ! i else Undefined)"

definition not_a_function :: val where
  "not_a_function = ErrorObj ''TypeError'' ''not a function''"

definition cannot_read :: val where
  "cannot_read = ErrorObj ''TypeError'' ''cannot read properties''"

fun eval :: "val list \<Rightarrow> expr \<Rightarrow> outcome" where
  "eval args (Const v) = Returned v"
| "eval args (Arg i) = Returned (arg args i)"
| "eval args (Message e) =
     (case eval args e of
        Threw x \<Rightarrow> Threw x
      | Returned v \<Rightarrow>
          (case v of
             Undefined \<Rightarrow> Threw cannot_read
           | Null \<Rightarrow> Threw cannot_read
           | ErrorObj n m \<Rightarrow> Returned (Str m)
           | _ \<Rightarrow> Returned Undefined))"

fun evals :: "val list \<Rightarrow> expr list \<Rightarrow> val + val list" where
  "evals args [] = Inr []"
| "evals args (e # es) =
     (case eval args e of
        Threw x \<Rightarrow> Inl x
      | Returned v \<Rightarrow> (case evals args es of Inl x \<Rightarrow> Inl x | Inr vs \<Rightarrow> Inr (v # vs)))"

definition call_val :: "caller \<Rightarrow> val \<Rightarrow> val \<Rightarrow> val list \<Rightarrow> machine \<Rightarrow> (outcome \<times> machine) option" where
  "call_val c f this args st =
     (case f of
        Fun g \<Rightarrow> c g this args st
      | FunObj g m \<Rightarrow> c g this args st
      | _ \<Rightarrow> Some (Threw not_a_function, st))"

text \<open>A call statement whose result is not used: the value is dropped, a throw goes on.\<close>

definition discard :: "(outcome \<times> machine) option \<Rightarrow> (outcome \<times> machine) option" where
  "discard r =
     (case r of
        None \<Rightarrow> None
      | Some (Threw e, st) \<Rightarrow> Some (Threw e, st)
      | Some (Returned v, st) \<Rightarrow> Some (Returned Undefined, st))"

fun exec_stmts :: "caller \<Rightarrow> val list \<Rightarrow> stmt list \<Rightarrow> machine \<Rightarrow> (outcome \<times> machine) option" where
  "exec_stmts c args [] st = Some (Returned Undefined, st)"
| "exec_stmts c args (Emit e # ss) st =
     (case eval args e of
        Threw x \<Rightarrow> Some (Threw x, st)
      | Returned v \<Rightarrow> exec_stmts c args ss (st\<lparr>trace := trace st @ [v]\<rparr>))"
| "exec_stmts c args (Invoke f es # ss) st =
     (case eval args f of
        Threw x \<Rightarrow> Some (Threw x, st)
      | Returned fv \<Rightarrow>
          (case evals args es of
             Inl x \<Rightarrow> Some (Threw x, st)
           | Inr vs \<Rightarrow>
               (case call_val c fv Undefined vs st of
                  None \<Rightarrow> None
                | Some (Threw x, st') \<Rightarrow> Some (Threw x, st')
                | Some (Returned r, st') \<Rightarrow> exec_stmts c args ss st')))"
| "exec_stmts c args (Return e # ss) st =
     (case eval args e of
        Threw x \<Rightarrow> Some (Threw x, st)
      | Returned v \<Rightarrow> Some (Returned v, st))"
| "exec_stmts c args (Throw e # ss) st =
     (case eval args e of
        Threw x \<Rightarrow> Some (Threw x, st)
      | Returned v \<Rightarrow> Some (Threw v, st))"

section \<open>The constructor (lines 82 to 129)\<close>

text \<open>
  The bodies of \<^verbatim>\<open>resolve\<close> and \<^verbatim>\<open>reject\<close> (\<open>resolve_cap\<close> and \<open>reject_cap\<close>
  here, since \<open>resolve\<close> and \<open>reject\<close> are also the parameter names of
  \<^verbatim>\<open>resolvePromise\<close>): each only hands a closure to \<^verbatim>\<open>nextTick\<close>.
\<close>

definition resolve_cap :: "nat \<Rightarrow> val \<Rightarrow> machine \<Rightarrow> machine" where
  "resolve_cap this v st = nextTick (SettleResolved this v) st"

definition reject_cap :: "nat \<Rightarrow> val \<Rightarrow> machine \<Rightarrow> machine" where
  "reject_cap this r st = nextTick (SettleRejected this r) st"

definition init_promise :: promise where
  "init_promise =
     \<lparr>state = PENDING, value = Undefined, reason = Undefined,
      resolvedCallbacks = [], rejectedCallbacks = []\<rparr>"

text \<open>
  The executor is a function of the two capabilities: a user function called through
  \<open>user_executor\<close>, or one of the two arrow functions the library itself passes to the
  constructor (in \<^verbatim>\<open>then\<close> and in \<^verbatim>\<open>Promise.deferred\<close>).
\<close>

type_synonym executor = "val \<Rightarrow> val \<Rightarrow> machine \<Rightarrow> (outcome \<times> machine) option"

definition new_Promise :: "executor \<Rightarrow> machine \<Rightarrow> (val \<times> machine) option" where
  "new_Promise executor st =
     (let this = length (promises st);
          st1 = st\<lparr>promises := promises st @ [init_promise]\<rparr>
      in case executor (Fun (ResolveCap this)) (Fun (RejectCap this)) st1 of
           None \<Rightarrow> None
         | Some (Returned r, st2) \<Rightarrow> Some (PromiseRef this, st2)
         | Some (Threw error, st2) \<Rightarrow> Some (PromiseRef this, reject_cap this error st2))"

definition user_executor :: "caller \<Rightarrow> val \<Rightarrow> executor" where
  "user_executor c f = (\<lambda>resolve reject st. call_val c f Undefined [resolve, reject] st)"

section \<open>\<^verbatim>\<open>then\<close> (lines 135 to 201)\<close>

definition push_callbacks :: "val \<Rightarrow> callback \<Rightarrow> callback \<Rightarrow> machine \<Rightarrow> machine" where
  "push_callbacks this f r st =
     (case this of
        PromiseRef p \<Rightarrow>
          if p < length (promises st)
          then st\<lparr>promises := (promises st)[p := (promises st ! p)
                 \<lparr>resolvedCallbacks := resolvedCallbacks (promises st ! p) @ [f],
                  rejectedCallbacks := rejectedCallbacks (promises st ! p) @ [r]\<rparr>]\<rparr>
          else st
      | _ \<Rightarrow> st)"

text \<open>
  The executor \<^verbatim>\<open>then\<close> passes to the constructor. It reads \<^verbatim>\<open>this.state\<close>: on a
  receiver that is no promise the member is missing and no branch is taken, and on
  \<^verbatim>\<open>undefined\<close> or \<^verbatim>\<open>null\<close> (a detached call of the method, in strict mode) the
  read throws.
\<close>

definition then_executor :: "val \<Rightarrow> val \<Rightarrow> val \<Rightarrow> nat \<Rightarrow> executor" where
  "then_executor this onFulfilled onRejected promise2 = (\<lambda>resolve reject st.
     if this = Undefined \<or> this = Null then Some (Threw cannot_read, st) else
     let st1 = (if field_state st this = Some RESOLVED
                then nextTick (RunCallback (CallOnFulfilled this onFulfilled promise2 resolve reject)) st
                else st);
         st2 = (if field_state st1 this = Some REJECTED
                then nextTick (RunCallback (CallOnRejected this onRejected promise2 resolve reject)) st1
                else st1);
         st3 = (if field_state st2 this = Some PENDING
                then push_callbacks this
                       (CallOnFulfilled this onFulfilled promise2 resolve reject)
                       (CallOnRejected this onRejected promise2 resolve reject) st2
                else st2)
     in Some (Returned Undefined, st3))"

text \<open>
  \<open>promise2\<close> is the object the constructor is about to allocate; the closures that
  mention it run only after the constructor has returned.
\<close>

definition promise_then :: "val \<Rightarrow> val \<Rightarrow> val \<Rightarrow> machine \<Rightarrow> (val \<times> machine) option" where
  "promise_then this onFulfilled onRejected st =
     (let onFulfilled = (if isFunction onFulfilled then onFulfilled
                         else Fun (User [Return (Arg 0)]));
          onRejected = (if isFunction onRejected then onRejected
                        else Fun (User [Throw (Arg 0)]));
          promise2 = length (promises st)
      in new_Promise (then_executor this onFulfilled onRejected promise2) st)"

section \<open>\<^verbatim>\<open>resolvePromise\<close> (lines 29 to 71)\<close>

definition cycle_error :: val where
  "cycle_error = ErrorObj ''TypeError''
     (''Error '' @ [CHR 0xE5, CHR 0xBE, CHR 0xAA, CHR 0xE7, CHR 0x8E, CHR 0xAF,
                    CHR 0xE5, CHR 0xBC, CHR 0x95, CHR 0xE7, CHR 0x94, CHR 0xA8])"

text \<open>
  Reading \<^verbatim>\<open>x.then\<close> (line 41): the method of the class on a promise, the member of an
  object or of a function that has one, nothing on the other values (the read throws on
  \<^verbatim>\<open>undefined\<close> and \<^verbatim>\<open>null\<close>, which \<^verbatim>\<open>resolvePromise\<close> never reads).
\<close>

fun get_then :: "val \<Rightarrow> outcome" where
  "get_then (PromiseRef p) = Returned (Fun PromiseThen)"
| "get_then (Obj Absent) = Returned Undefined"
| "get_then (Obj (Data v)) = Returned v"
| "get_then (Obj (GetterThrows e)) = Threw e"
| "get_then (FunObj f Absent) = Returned Undefined"
| "get_then (FunObj f (Data v)) = Returned v"
| "get_then (FunObj f (GetterThrows e)) = Threw e"
| "get_then Undefined = Threw cannot_read"
| "get_then Null = Threw cannot_read"
| "get_then v = Returned Undefined"

text \<open>The body of the \<^verbatim>\<open>try\<close> block (lines 41 to 61).\<close>

definition try_then :: "caller \<Rightarrow> nat \<Rightarrow> nat \<Rightarrow> val \<Rightarrow> val \<Rightarrow> val \<Rightarrow> machine \<Rightarrow> (outcome \<times> machine) option" where
  "try_then c called promise2 x resolve reject st =
     (case get_then x of
        Threw e \<Rightarrow> Some (Threw e, st)
      | Returned then' \<Rightarrow>
          if isFunction then'
          then discard (call_val c then' x
                 [Fun (OnInnerFulfilled called promise2 resolve reject),
                  Fun (OnInnerRejected called reject)] st)
          else discard (call_val c resolve Undefined [x] st))"

definition resolvePromise :: "caller \<Rightarrow> nat \<Rightarrow> val \<Rightarrow> val \<Rightarrow> val \<Rightarrow> machine \<Rightarrow> (outcome \<times> machine) option" where
  "resolvePromise c promise2 x resolve reject st =
     (if PromiseRef promise2 = x then call_val c reject Undefined [cycle_error] st
      else
        let called = length (flags st);
            st1 = st\<lparr>flags := flags st @ [False]\<rparr>
        in if isObject x \<or> isFunction x
           then (case try_then c called promise2 x resolve reject st1 of
                   None \<Rightarrow> None
                 | Some (Returned r, st2) \<Rightarrow> Some (Returned Undefined, st2)
                 | Some (Threw error, st2) \<Rightarrow>
                     if flag_set st2 called then Some (Returned Undefined, st2)
                     else discard (call_val c reject Undefined [error] (set_flag called st2)))
           else discard (call_val c resolve Undefined [x] st1))"

section \<open>Calling a function value\<close>

text \<open>
  One level of calls: \<open>call_step c\<close> runs the body of a function and uses \<open>c\<close> for the
  calls that body makes. \<open>call n\<close> allows calls nested at most \<open>n\<close> deep and is \<open>None\<close>
  beyond that.
\<close>

definition call_step :: "caller \<Rightarrow> caller" where
  "call_step c f this args st =
     (case f of
        ResolveCap p \<Rightarrow> Some (Returned Undefined, resolve_cap p (arg args 0) st)
      | RejectCap p \<Rightarrow> Some (Returned Undefined, reject_cap p (arg args 0) st)
      | OnInnerFulfilled called promise2 resolve reject \<Rightarrow>
          if flag_set st called then Some (Returned Undefined, st)
          else discard (resolvePromise c promise2 (arg args 0) resolve reject (set_flag called st))
      | OnInnerRejected called reject \<Rightarrow>
          if flag_set st called then Some (Returned Undefined, st)
          else discard (call_val c reject Undefined [arg args 0] (set_flag called st))
      | PromiseThen \<Rightarrow>
          (case promise_then this (arg args 0) (arg args 1) st of
             None \<Rightarrow> None
           | Some (promise2, st') \<Rightarrow> Some (Returned promise2, st'))
      | User body \<Rightarrow> exec_stmts c args body st)"

primrec call :: "nat \<Rightarrow> caller" where
  "call 0 = (\<lambda>f this args st. None)"
| "call (Suc n) = call_step (call n)"

section \<open>The scheduled closures\<close>

text \<open>
  The body shared by the closures of \<^verbatim>\<open>then\<close> (lines 153 to 160, 166 to 172, 180 to 186
  and 190 to 195): call the handler on the settled value, resolve \<open>promise2\<close> with what it
  returns, reject \<open>promise2\<close> with what either of the two throws.
\<close>

definition handle :: "caller \<Rightarrow> val \<Rightarrow> val \<Rightarrow> nat \<Rightarrow> val \<Rightarrow> val \<Rightarrow> machine \<Rightarrow> (outcome \<times> machine) option" where
  "handle c handler v promise2 resolve reject st =
     (case call_val c handler Undefined [v] st of
        None \<Rightarrow> None
      | Some (Threw error, st1) \<Rightarrow> discard (call_val c reject Undefined [error] st1)
      | Some (Returned x, st1) \<Rightarrow>
          (case resolvePromise c promise2 x resolve reject st1 of
             None \<Rightarrow> None
           | Some (Threw error, st2) \<Rightarrow> discard (call_val c reject Undefined [error] st2)
           | Some (Returned r, st2) \<Rightarrow> Some (Returned Undefined, st2)))"

fun run_callback :: "caller \<Rightarrow> callback \<Rightarrow> machine \<Rightarrow> (outcome \<times> machine) option" where
  "run_callback c (CallOnFulfilled this onFulfilled promise2 resolve reject) st =
     handle c onFulfilled (field_value st this) promise2 resolve reject st"
| "run_callback c (CallOnRejected this onRejected promise2 resolve reject) st =
     handle c onRejected (field_reason st this) promise2 resolve reject st"

text \<open>
  \<^verbatim>\<open>forEach((fn) => fn())\<close> over a callback queue. The queue cannot change while it is
  drained: \<^verbatim>\<open>then\<close> pushes only on a pending promise, and the state was set before.
\<close>

fun forEach :: "caller \<Rightarrow> callback list \<Rightarrow> machine \<Rightarrow> (outcome \<times> machine) option" where
  "forEach c [] st = Some (Returned Undefined, st)"
| "forEach c (fn # fns) st =
     (case run_callback c fn st of
        None \<Rightarrow> None
      | Some (Threw e, st') \<Rightarrow> Some (Threw e, st')
      | Some (Returned r, st') \<Rightarrow> forEach c fns st')"

text \<open>The closures of \<^verbatim>\<open>resolve\<close> (lines 96 to 104) and \<^verbatim>\<open>reject\<close> (lines 109 to 117).\<close>

definition settle_resolved :: "caller \<Rightarrow> nat \<Rightarrow> val \<Rightarrow> machine \<Rightarrow> (outcome \<times> machine) option" where
  "settle_resolved c this v st =
     (if field_state st (PromiseRef this) = Some PENDING
      then forEach c (resolvedCallbacks (promises st ! this))
             (st\<lparr>promises := (promises st)[this := (promises st ! this)\<lparr>state := RESOLVED, value := v\<rparr>]\<rparr>)
      else Some (Returned Undefined, st))"

definition settle_rejected :: "caller \<Rightarrow> nat \<Rightarrow> val \<Rightarrow> machine \<Rightarrow> (outcome \<times> machine) option" where
  "settle_rejected c this r st =
     (if field_state st (PromiseRef this) = Some PENDING
      then forEach c (rejectedCallbacks (promises st ! this))
             (st\<lparr>promises := (promises st)[this := (promises st ! this)\<lparr>state := REJECTED, reason := r\<rparr>]\<rparr>)
      else Some (Returned Undefined, st))"

fun exec_task :: "caller \<Rightarrow> task \<Rightarrow> machine \<Rightarrow> (outcome \<times> machine) option" where
  "exec_task c (SettleResolved this v) st = settle_resolved c this v st"
| "exec_task c (SettleRejected this r) st = settle_rejected c this r st"
| "exec_task c (RunCallback fn) st = run_callback c fn st"

text \<open>
  The timers fire in the order they were set. \<open>event_loop d k\<close> fires at most \<open>k\<close> of
  them, each with calls nested at most \<open>d\<close> deep, and returns once the queue is empty.
  An exception that leaves a timer's closure ends the run, as it ends a Node.js process.
\<close>

fun event_loop :: "nat \<Rightarrow> nat \<Rightarrow> machine \<Rightarrow> (outcome \<times> machine) option" where
  "event_loop d 0 st = (if tasks st = [] then Some (Returned Undefined, st) else None)"
| "event_loop d (Suc k) st =
     (case tasks st of
        [] \<Rightarrow> Some (Returned Undefined, st)
      | fn # fns \<Rightarrow>
          (case exec_task (call d) fn (st\<lparr>tasks := fns\<rparr>) of
             None \<Rightarrow> None
           | Some (Threw e, st') \<Rightarrow> Some (Threw e, st')
           | Some (Returned r, st') \<Rightarrow> event_loop d k st'))"

section \<open>\<^verbatim>\<open>Promise.deferred\<close> (lines 204 to 211)\<close>

text \<open>
  \<^verbatim>\<open>dfd\<close> is an object the executor writes to, so it lives in the store until the
  function returns it.
\<close>

definition deferred :: "machine \<Rightarrow> (dfd \<times> machine) option" where
  "deferred st =
     (let d = length (dfds st);
          st1 = st\<lparr>dfds := dfds st @
                  [\<lparr>dfd_promise = Undefined, dfd_resolve = Undefined, dfd_reject = Undefined\<rparr>]\<rparr>
      in case new_Promise (\<lambda>resolve reject s. Some (Returned Undefined,
                s\<lparr>dfds := (dfds s)[d := (dfds s ! d)\<lparr>dfd_resolve := resolve, dfd_reject := reject\<rparr>]\<rparr>)) st1 of
           None \<Rightarrow> None
         | Some (p, st2) \<Rightarrow>
             (let st3 = st2\<lparr>dfds := (dfds st2)[d := (dfds st2 ! d)\<lparr>dfd_promise := p\<rparr>]\<rparr>
              in Some (dfds st3 ! d, st3)))"

definition empty_machine :: machine where
  "empty_machine = \<lparr>promises = [], flags = [], dfds = [], tasks = [], trace = []\<rparr>"

section \<open>What a run may change\<close>

text \<open>
  \<open>populated_ok\<close>: a pending promise holds neither a value nor a reason, a fulfilled one
  no reason, a rejected one no value. \<open>settled_kept\<close>: every promise of the first store
  that has left \<^verbatim>\<open>PENDING\<close> has the same state, value and reason in the second.
  \<open>flags_kept\<close>: a \<^verbatim>\<open>called\<close> flag that is set stays set. \<open>stable st st'\<close> holds when a
  step from \<open>st\<close> to \<open>st'\<close> respects all three, and \<open>keeps c\<close> when every call made
  through \<open>c\<close> does.
\<close>

definition populated_ok :: "promise \<Rightarrow> bool" where
  "populated_ok pr \<longleftrightarrow>
     (state pr = PENDING \<longrightarrow> value pr = Undefined \<and> reason pr = Undefined) \<and>
     (state pr = RESOLVED \<longrightarrow> reason pr = Undefined) \<and>
     (state pr = REJECTED \<longrightarrow> value pr = Undefined)"

definition settled_kept :: "promise list \<Rightarrow> promise list \<Rightarrow> bool" where
  "settled_kept ps ps' \<longleftrightarrow>
     length ps \<le> length ps' \<and>
     (\<forall>p < length ps. state (ps ! p) \<noteq> PENDING \<longrightarrow>
        state (ps' ! p) = state (ps ! p) \<and> value (ps' ! p) = value (ps ! p) \<and>
        reason (ps' ! p) = reason (ps ! p))"

definition flags_kept :: "bool list \<Rightarrow> bool list \<Rightarrow> bool" where
  "flags_kept fs fs' \<longleftrightarrow> length fs \<le> length fs' \<and> (\<forall>i < length fs. fs ! i \<longrightarrow> fs' ! i)"

definition stable :: "machine \<Rightarrow> machine \<Rightarrow> bool" where
  "stable st st' \<longleftrightarrow>
     settled_kept (promises st) (promises st') \<and>
     (list_all populated_ok (promises st) \<longrightarrow> list_all populated_ok (promises st')) \<and>
     flags_kept (flags st) (flags st')"

definition keeps :: "caller \<Rightarrow> bool" where
  "keeps c \<longleftrightarrow> (\<forall>f this args st r st'. c f this args st = Some (r, st') \<longrightarrow> stable st st')"

text \<open>
  Thenables for the user's side. \<open>thenable_fulfilling v\<close> is the object
  \<^verbatim>\<open>{then(res, rej) { res(v) }}\<close> and \<open>function_fulfilling v\<close> a function carrying that
  \<^verbatim>\<open>then\<close>; \<open>nested_thenable bs v\<close> wraps \<open>v\<close> in one of them per element of \<open>bs\<close>,
  a function where the element is true.
  \<open>misbehaving calls final\<close> is a thenable whose \<^verbatim>\<open>then\<close> calls its parameters one
  after the other, \<open>(j, w)\<close> standing for \<^verbatim>\<open>arguments[j](w)\<close>, and then runs \<open>final\<close>.
\<close>

definition thenable_fulfilling :: "val \<Rightarrow> val" where
  "thenable_fulfilling v = Obj (Data (Fun (User [Invoke (Arg 0) [Const v]])))"

definition function_fulfilling :: "val \<Rightarrow> val" where
  "function_fulfilling v = FunObj (User []) (Data (Fun (User [Invoke (Arg 0) [Const v]])))"

fun nested_thenable :: "bool list \<Rightarrow> val \<Rightarrow> val" where
  "nested_thenable [] v = v"
| "nested_thenable (b # bs) v =
     (if b then function_fulfilling (nested_thenable bs v) else thenable_fulfilling (nested_thenable bs v))"

definition invocations :: "(nat \<times> val) list \<Rightarrow> stmt list" where
  "invocations calls = map (\<lambda>(j, w). Invoke (Arg j) [Const w]) calls"

definition misbehaving :: "(nat \<times> val) list \<Rightarrow> stmt list \<Rightarrow> val" where
  "misbehaving calls final = Obj (Data (Fun (User (invocations calls @ final))))"

text \<open>
  \<open>same_outcome p st st'\<close>: promise \<open>p\<close> has in \<open>st'\<close> the state, value and reason it has
  in \<open>st\<close>. The two machines below are the one after \<^verbatim>\<open>new Promise(res => res(1))\<close> has
  settled, and the one after \<^verbatim>\<open>new Promise(() => {})\<close>.
\<close>

definition same_outcome :: "nat \<Rightarrow> machine \<Rightarrow> machine \<Rightarrow> bool" where
  "same_outcome p st st' \<longleftrightarrow>
     p < length (promises st') \<and>
     state (promises st' ! p) = state (promises st ! p) \<and>
     value (promises st' ! p) = value (promises st ! p) \<and>
     reason (promises st' ! p) = reason (promises st ! p)"

definition settled_machine :: machine where
  "settled_machine = \<lparr>promises = [\<lparr>state = RESOLVED, value = Num 1, reason = Undefined,
      resolvedCallbacks = [], rejectedCallbacks = []\<rparr>], flags = [], dfds = [], tasks = [], trace = []\<rparr>"

definition pending_machine :: machine where
  "pending_machine = \<lparr>promises = [init_promise], flags = [], dfds = [], tasks = [], trace = []\<rparr>"

text \<open>
  The handler \<^verbatim>\<open>then\<close> uses: its argument when that is a function, the default
  otherwise (lines 136 to 141).
\<close>

definition or_default :: "val \<Rightarrow> stmt \<Rightarrow> val" where
  "or_default h s = (if isFunction h then h else Fun (User [s]))"

text \<open>
  \<open>runs_to st st'\<close>: the program reaches \<open>st'\<close> from \<open>st\<close> by letting timers fire,
  calling function values, calling \<^verbatim>\<open>then\<close>, constructing promises and calling
  \<^verbatim>\<open>Promise.deferred\<close>, in any order and any number of times.
\<close>

inductive runs_to :: "machine \<Rightarrow> machine \<Rightarrow> bool" where
  start: "runs_to st st"
| timers: "runs_to st st1 \<Longrightarrow> event_loop d k st1 = Some (r, st2) \<Longrightarrow> runs_to st st2"
| called: "runs_to st st1 \<Longrightarrow> call d f this args st1 = Some (r, st2) \<Longrightarrow> runs_to st st2"
| chained: "runs_to st st1 \<Longrightarrow> promise_then this f g st1 = Some (v, st2) \<Longrightarrow> runs_to st st2"
| constructed: "runs_to st st1 \<Longrightarrow> new_Promise (user_executor (call d) f) st1 = Some (v, st2) \<Longrightarrow> runs_to st st2"
| deferred: "runs_to st st1 \<Longrightarrow> deferred st1 = Some (h, st2) \<Longrightarrow> runs_to st st2"

text \<open>
  \<open>then_all this hs\<close> is the program \<^verbatim>\<open>this.then(f1, g1); ...; this.then(fk, gk)\<close> for
  the pairs of \<open>hs\<close>. \<open>queued_fulfilled this n hs\<close> and \<open>queued_rejected this n hs\<close> are the
  closures these calls push when the first of them allocates promise \<open>n\<close>, in the order
  of the calls. \<open>emitters es\<close> are handlers that only emit: the first component of a pair
  when called as \<^verbatim>\<open>onFulfilled\<close>, the second as \<^verbatim>\<open>onRejected\<close>.
  \<open>fulfilled_machine v\<close> is the machine after \<^verbatim>\<open>new Promise(res => res(v))\<close> has settled.
\<close>

fun then_all :: "val \<Rightarrow> (val \<times> val) list \<Rightarrow> machine \<Rightarrow> machine option" where
  "then_all this [] st = Some st"
| "then_all this ((f, g) # hs) st =
     (case promise_then this f g st of
        None \<Rightarrow> None
      | Some (promise2, st') \<Rightarrow> then_all this hs st')"

fun queued_fulfilled :: "val \<Rightarrow> nat \<Rightarrow> (val \<times> val) list \<Rightarrow> callback list" where
  "queued_fulfilled this n [] = []"
| "queued_fulfilled this n ((f, g) # hs) =
     CallOnFulfilled this (or_default f (Return (Arg 0))) n (Fun (ResolveCap n)) (Fun (RejectCap n))
       # queued_fulfilled this (Suc n) hs"

fun queued_rejected :: "val \<Rightarrow> nat \<Rightarrow> (val \<times> val) list \<Rightarrow> callback list" where
  "queued_rejected this n [] = []"
| "queued_rejected this n ((f, g) # hs) =
     CallOnRejected this (or_default g (Throw (Arg 0))) n (Fun (ResolveCap n)) (Fun (RejectCap n))
       # queued_rejected this (Suc n) hs"

definition emitters :: "(val \<times> val) list \<Rightarrow> (val \<times> val) list" where
  "emitters es = map (\<lambda>(a, b). (Fun (User [Emit (Const a)]), Fun (User [Emit (Const b)]))) es"

definition fulfilled_machine :: "val \<Rightarrow> machine" where
  "fulfilled_machine v = \<lparr>promises = [\<lparr>state = RESOLVED, value = v, reason = Undefined,
      resolvedCallbacks = [], rejectedCallbacks = []\<rparr>], flags = [], dfds = [], tasks = [], trace = []\<rparr>"

section \<open>Settled promises stay as they are\<close>

lemma settled_kept_refl: "settled_kept ps ps"
  by (simp add: settled_kept_def)
lemma settled_kept_trans: "settled_kept a b \<Longrightarrow> settled_kept b c \<Longrightarrow> settled_kept a c"
  unfolding settled_kept_def by (metis (no_types, lifting) le_trans less_le_trans)
lemma flags_kept_refl: "flags_kept ps ps"
  by (simp add: flags_kept_def)
lemma flags_kept_trans: "flags_kept a b \<Longrightarrow> flags_kept b c \<Longrightarrow> flags_kept a c"
  unfolding flags_kept_def by (meson le_trans less_le_trans)

lemma stable_refl: "stable st st"
  by (simp add: stable_def settled_kept_refl flags_kept_refl)
lemma stable_trans: "stable a b \<Longrightarrow> stable b c \<Longrightarrow> stable a c"
  unfolding stable_def using settled_kept_trans flags_kept_trans by blast

lemma stable_same: "promises st' = promises st \<Longrightarrow> flags st' = flags st \<Longrightarrow> stable st st'"
  by (simp add: stable_def settled_kept_refl flags_kept_refl)

lemma stable_nextTick: "stable st (nextTick t st)"
  by (simp add: stable_same nextTick_def)

lemma stable_new_flag: "stable st (st\<lparr>flags := flags st @ [False]\<rparr>)"
  by (simp add: stable_def settled_kept_refl flags_kept_def nth_append)

lemma stable_set_flag: "stable st (set_flag called st)"
  by (cases "called < length (flags st)")
    (auto simp add: stable_def settled_kept_refl flags_kept_def set_flag_def nth_list_update)

lemma stable_alloc: "stable st (st\<lparr>promises := promises st @ [init_promise]\<rparr>)"
  by (simp add: stable_def settled_kept_def flags_kept_refl nth_append populated_ok_def init_promise_def)

lemma stable_push: "stable st (push_callbacks this f r st)"
  by (auto simp add: stable_def settled_kept_def flags_kept_refl push_callbacks_def nth_list_update
      list_all_length populated_ok_def split: val.splits)

lemma stable_resolved:
  "this < length (promises st) \<Longrightarrow> state (promises st ! this) = PENDING \<Longrightarrow>
   stable st (st\<lparr>promises := (promises st)[this := (promises st ! this)\<lparr>state := RESOLVED, value := v\<rparr>]\<rparr>)"
  by (auto simp add: stable_def settled_kept_def flags_kept_refl nth_list_update
      list_all_length populated_ok_def)

lemma stable_rejected:
  "this < length (promises st) \<Longrightarrow> state (promises st ! this) = PENDING \<Longrightarrow>
   stable st (st\<lparr>promises := (promises st)[this := (promises st ! this)\<lparr>state := REJECTED, reason := v\<rparr>]\<rparr>)"
  by (auto simp add: stable_def settled_kept_def flags_kept_refl nth_list_update
      list_all_length populated_ok_def)

lemma stable_call_val:
  "keeps c \<Longrightarrow> call_val c f this args st = Some (r, st') \<Longrightarrow> stable st st'"
  by (auto simp: call_val_def keeps_def stable_refl split: val.splits)

lemma discard_Some: "discard x = Some (r, st') \<Longrightarrow> \<exists>r'. x = Some (r', st')"
  by (auto simp: discard_def split: option.splits outcome.splits prod.splits)

lemma stable_exec_stmts:
  "keeps c \<Longrightarrow> exec_stmts c args ss st = Some (r, st') \<Longrightarrow> stable st st'"
proof (induction c args ss st rule: exec_stmts.induct)
  case (1 c args st)
  then show ?case by (simp add: stable_refl)
next
  case (2 c args e ss st)
  show ?case
  proof (cases "eval args e")
    case (Returned v)
    with 2 have "stable (st\<lparr>trace := trace st @ [v]\<rparr>) st'" by simp
    moreover have "stable st (st\<lparr>trace := trace st @ [v]\<rparr>)" by (simp add: stable_same)
    ultimately show ?thesis by (rule stable_trans[rotated])
  next
    case (Threw x)
    with 2 show ?thesis by (simp add: stable_refl)
  qed
next
  case (3 c args f es ss st)
  show ?case
  proof (cases "eval args f")
    case (Threw x)
    with 3 show ?thesis by (simp add: stable_refl)
  next
    case fv: (Returned fv)
    show ?thesis
    proof (cases "evals args es")
      case (Inl x)
      with 3 fv show ?thesis by (simp add: stable_refl)
    next
      case vs: (Inr vs)
      show ?thesis
      proof (cases "call_val c fv Undefined vs st")
        case None
        with 3 fv vs show ?thesis by simp
      next
        case (Some a)
        obtain o1 st1 where a: "a = (o1, st1)" by (cases a)
        have s1: "stable st st1" using stable_call_val[OF \<open>keeps c\<close>] Some a by blast
        show ?thesis
        proof (cases o1)
          case (Threw x)
          with 3 fv vs Some a s1 show ?thesis by simp
        next
          case (Returned r1)
          with 3 fv vs Some a have "stable st1 st'" by simp
          with s1 show ?thesis by (rule stable_trans)
        qed
      qed
    qed
  qed
next
  case (4 c args e ss st)
  then show ?case by (auto split: outcome.splits intro: stable_refl)
next
  case (5 c args e ss st)
  then show ?case by (auto split: outcome.splits intro: stable_refl)
qed

lemma stable_new_Promise:
  assumes ex: "\<And>res rej s r s'. executor res rej s = Some (r, s') \<Longrightarrow> stable s s'"
    and np: "new_Promise executor st = Some (v, st')"
  shows "stable st st'"
proof -
  let ?st1 = "st\<lparr>promises := promises st @ [init_promise]\<rparr>"
  from np obtain r st2 where e: "executor (Fun (ResolveCap (length (promises st)))) (Fun (RejectCap (length (promises st)))) ?st1 = Some (r, st2)"
    and st': "st' = st2 \<or> st' = reject_cap (length (promises st)) (case r of Threw e \<Rightarrow> e | _ \<Rightarrow> Undefined) st2"
    unfolding new_Promise_def Let_def by (auto split: option.splits outcome.splits prod.splits)
  have "stable st ?st1" by (rule stable_alloc)
  moreover have "stable ?st1 st2" using e by (rule ex)
  moreover have "stable st2 st'" using st' by (auto simp: stable_refl reject_cap_def stable_nextTick)
  ultimately show ?thesis by (blast intro: stable_trans)
qed

lemma stable_then_executor:
  assumes "then_executor this f g p2 res rej st = Some (r, st')"
  shows "stable st st'"
proof -
  define st1 where "st1 = (if field_state st this = Some RESOLVED
                then nextTick (RunCallback (CallOnFulfilled this f p2 res rej)) st
                else st)"
  define st2 where "st2 = (if field_state st1 this = Some REJECTED
                then nextTick (RunCallback (CallOnRejected this g p2 res rej)) st1
                else st1)"
  define st3 where "st3 = (if field_state st2 this = Some PENDING
                then push_callbacks this
                       (CallOnFulfilled this f p2 res rej)
                       (CallOnRejected this g p2 res rej) st2
                else st2)"
  have "st' = st \<or> Some (Returned Undefined, st3) = Some (r, st')"
    using assms by (simp only: then_executor_def Let_def st1_def st2_def st3_def split: if_splits) auto
  then have "st' = st \<or> st' = st3" by auto
  moreover have "stable st st1" by (simp add: st1_def stable_refl stable_nextTick)
  moreover have "stable st1 st2" by (simp add: st2_def stable_refl stable_nextTick)
  moreover have "stable st2 st3" by (simp add: st3_def stable_refl stable_push)
  ultimately show ?thesis by (blast intro: stable_trans stable_refl)
qed

lemma stable_promise_then:
  "promise_then this f g st = Some (r, st') \<Longrightarrow> stable st st'"
  unfolding promise_then_def Let_def
  by (erule stable_new_Promise[rotated]) (erule stable_then_executor)

lemma stable_try_then:
  "keeps c \<Longrightarrow> try_then c called p2 x res rej st = Some (r, st') \<Longrightarrow> stable st st'"
  unfolding try_then_def
  by (auto split: outcome.splits if_splits dest!: discard_Some intro: stable_refl dest: stable_call_val)

lemma stable_resolvePromise:
  assumes k: "keeps c" and rp: "resolvePromise c p2 x res rej st = Some (r, st')"
  shows "stable st st'"
proof (cases "PromiseRef p2 = x")
  case True
  with rp show ?thesis by (auto simp: resolvePromise_def dest: stable_call_val[OF k])
next
  case False
  let ?st1 = "st\<lparr>flags := flags st @ [False]\<rparr>"
  have s1: "stable st ?st1" by (rule stable_new_flag)
  show ?thesis
  proof (cases "isObject x \<or> isFunction x")
    case False
    with rp \<open>PromiseRef p2 \<noteq> x\<close> obtain r' where "call_val c res Undefined [x] ?st1 = Some (r', st')"
      by (auto simp: resolvePromise_def Let_def dest!: discard_Some)
    then have "stable ?st1 st'" by (rule stable_call_val[OF k])
    with s1 show ?thesis by (rule stable_trans)
  next
    case True
    show ?thesis
    proof (cases "try_then c (length (flags st)) p2 x res rej ?st1")
      case None
      with rp True \<open>PromiseRef p2 \<noteq> x\<close> show ?thesis by (simp add: resolvePromise_def Let_def)
    next
      case (Some a)
      obtain o2 st2 where a: "a = (o2, st2)" by (cases a)
      have s2: "stable ?st1 st2" using stable_try_then[OF k] Some a by blast
      show ?thesis
      proof (cases o2)
        case (Returned v)
        with rp True \<open>PromiseRef p2 \<noteq> x\<close> Some a have "st' = st2"
          by (simp add: resolvePromise_def Let_def)
        with s1 s2 show ?thesis by (blast intro: stable_trans)
      next
        case (Threw e)
        show ?thesis
        proof (cases "flag_set st2 (length (flags st))")
          case True
          with rp \<open>isObject x \<or> isFunction x\<close> \<open>PromiseRef p2 \<noteq> x\<close> Some a Threw have "st' = st2"
            by (simp add: resolvePromise_def Let_def)
          with s1 s2 show ?thesis by (blast intro: stable_trans)
        next
          case False
          with rp \<open>isObject x \<or> isFunction x\<close> \<open>PromiseRef p2 \<noteq> x\<close> Some a Threw
          obtain r' where "call_val c rej Undefined [e] (set_flag (length (flags st)) st2) = Some (r', st')"
            by (auto simp: resolvePromise_def Let_def dest!: discard_Some)
          then have "stable (set_flag (length (flags st)) st2) st'" by (rule stable_call_val[OF k])
          with s1 s2 stable_set_flag show ?thesis by (blast intro: stable_trans)
        qed
      qed
    qed
  qed
qed

lemma keeps_call_step:
  assumes k: "keeps c"
  shows "keeps (call_step c)"
  unfolding keeps_def
proof (intro allI impI)
  fix f this args st r st'
  assume cs: "call_step c f this args st = Some (r, st')"
  show "stable st st'"
  proof (cases f)
    case (ResolveCap p)
    with cs show ?thesis by (auto simp: call_step_def resolve_cap_def stable_nextTick)
  next
    case (RejectCap p)
    with cs show ?thesis by (auto simp: call_step_def reject_cap_def stable_nextTick)
  next
    case (OnInnerFulfilled called p2 res rej)
    with cs show ?thesis
      by (auto simp: call_step_def stable_refl split: if_splits dest!: discard_Some
          dest!: stable_resolvePromise[OF k] intro: stable_trans[OF stable_set_flag])
  next
    case (OnInnerRejected called rej)
    with cs show ?thesis
      by (auto simp: call_step_def stable_refl split: if_splits dest!: discard_Some
          dest!: stable_call_val[OF k] intro: stable_trans[OF stable_set_flag])
  next
    case PromiseThen
    with cs show ?thesis
      by (auto simp: call_step_def split: option.splits prod.splits dest: stable_promise_then)
  next
    case (User body)
    with cs show ?thesis by (auto simp: call_step_def dest: stable_exec_stmts[OF k])
  qed
qed

lemma keeps_call: "keeps (call n)"
  by (induction n) (simp_all add: keeps_def keeps_call_step[unfolded keeps_def])

lemma stable_handle:
  assumes k: "keeps c" and h: "handle c handler v p2 res rej st = Some (r, st')"
  shows "stable st st'"
proof (cases "call_val c handler Undefined [v] st")
  case None
  with h show ?thesis by (simp add: handle_def)
next
  case (Some a)
  obtain o1 st1 where a: "a = (o1, st1)" by (cases a)
  have s1: "stable st st1" using stable_call_val[OF k] Some a by blast
  show ?thesis
  proof (cases o1)
    case (Threw e)
    with h Some a obtain r' where "call_val c rej Undefined [e] st1 = Some (r', st')"
      by (auto simp: handle_def dest!: discard_Some)
    then have "stable st1 st'" by (rule stable_call_val[OF k])
    with s1 show ?thesis by (rule stable_trans)
  next
    case (Returned x)
    show ?thesis
    proof (cases "resolvePromise c p2 x res rej st1")
      case None
      with h Some a Returned show ?thesis by (simp add: handle_def)
    next
      case (Some b)
      obtain o2 st2 where b: "b = (o2, st2)" by (cases b)
      have s2: "stable st1 st2" using stable_resolvePromise[OF k] Some b by blast
      show ?thesis
      proof (cases o2)
        case (Returned y)
        with h \<open>call_val c handler Undefined [v] st = Some a\<close> a \<open>o1 = Returned x\<close> Some b
        have "st' = st2" by (simp add: handle_def)
        with s1 s2 show ?thesis by (blast intro: stable_trans)
      next
        case (Threw e)
        with h \<open>call_val c handler Undefined [v] st = Some a\<close> a \<open>o1 = Returned x\<close> Some b
        obtain r' where "call_val c rej Undefined [e] st2 = Some (r', st')"
          by (auto simp: handle_def dest!: discard_Some)
        then have "stable st2 st'" by (rule stable_call_val[OF k])
        with s1 s2 show ?thesis by (blast intro: stable_trans)
      qed
    qed
  qed
qed

lemma stable_run_callback:
  "keeps c \<Longrightarrow> run_callback c fn st = Some (r, st') \<Longrightarrow> stable st st'"
  by (cases fn) (auto dest: stable_handle)

lemma stable_forEach:
  "keeps c \<Longrightarrow> forEach c fns st = Some (r, st') \<Longrightarrow> stable st st'"
proof (induction fns arbitrary: st)
  case Nil
  then show ?case by (simp add: stable_refl)
next
  case (Cons fn fns)
  from Cons.prems(2) obtain o1 st1 where rc: "run_callback c fn st = Some (o1, st1)"
    by (auto split: option.splits)
  have s1: "stable st st1" using stable_run_callback[OF Cons.prems(1) rc] .
  show ?case
  proof (cases o1)
    case (Threw e)
    with Cons.prems(2) rc s1 show ?thesis by simp
  next
    case (Returned x)
    with Cons.prems(2) rc have "forEach c fns st1 = Some (r, st')" by simp
    then have "stable st1 st'" by (rule Cons.IH[OF Cons.prems(1)])
    with s1 show ?thesis by (rule stable_trans)
  qed
qed

lemma stable_exec_task:
  assumes k: "keeps c" and e: "exec_task c t st = Some (r, st')"
  shows "stable st st'"
proof (cases t)
  case (SettleResolved this v)
  show ?thesis
  proof (cases "field_state st (PromiseRef this) = Some PENDING")
    case False
    with e SettleResolved show ?thesis by (simp add: settle_resolved_def stable_refl)
  next
    case True
    then have p: "this < length (promises st)" "state (promises st ! this) = PENDING"
      by (auto simp: field_state_def split: if_splits)
    from e SettleResolved True have "stable (st\<lparr>promises := (promises st)[this := (promises st ! this)\<lparr>state := RESOLVED, value := v\<rparr>]\<rparr>) st'"
      by (auto simp: settle_resolved_def dest: stable_forEach[OF k])
    with stable_resolved[OF p] show ?thesis by (rule stable_trans)
  qed
next
  case (SettleRejected this v)
  show ?thesis
  proof (cases "field_state st (PromiseRef this) = Some PENDING")
    case False
    with e SettleRejected show ?thesis by (simp add: settle_rejected_def stable_refl)
  next
    case True
    then have p: "this < length (promises st)" "state (promises st ! this) = PENDING"
      by (auto simp: field_state_def split: if_splits)
    from e SettleRejected True have "stable (st\<lparr>promises := (promises st)[this := (promises st ! this)\<lparr>state := REJECTED, reason := v\<rparr>]\<rparr>) st'"
      by (auto simp: settle_rejected_def dest: stable_forEach[OF k])
    with stable_rejected[OF p] show ?thesis by (rule stable_trans)
  qed
next
  case (RunCallback fn)
  with e show ?thesis by (auto dest: stable_run_callback[OF k])
qed

lemma stable_event_loop:
  "event_loop d k st = Some (r, st') \<Longrightarrow> stable st st'"
proof (induction k arbitrary: st)
  case 0
  then show ?case by (auto simp: stable_refl split: if_splits)
next
  case (Suc k)
  show ?case
  proof (cases "tasks st")
    case Nil
    with Suc.prems show ?thesis by (simp add: stable_refl)
  next
    case (Cons fn fns)
    with Suc.prems obtain o1 st1 where et: "exec_task (call d) fn (st\<lparr>tasks := fns\<rparr>) = Some (o1, st1)"
      by (auto split: option.splits)
    have "stable st (st\<lparr>tasks := fns\<rparr>)" by (simp add: stable_same)
    moreover have "stable (st\<lparr>tasks := fns\<rparr>) st1" using stable_exec_task[OF keeps_call et] .
    ultimately have s1: "stable st st1" by (rule stable_trans)
    show ?thesis
    proof (cases o1)
      case (Threw e)
      with Suc.prems Cons et s1 show ?thesis by simp
    next
      case (Returned x)
      with Suc.prems Cons et have "event_loop d k st1 = Some (r, st')" by simp
      then have "stable st1 st'" by (rule Suc.IH)
      with s1 show ?thesis by (rule stable_trans)
    qed
  qed
qed

lemma stable_user_executor:
  "keeps c \<Longrightarrow> user_executor c f res rej s = Some (r, s') \<Longrightarrow> stable s s'"
  by (auto simp: user_executor_def dest: stable_call_val)

lemma stable_deferred:
  assumes "deferred st = Some (d, st')"
  shows "stable st st'"
proof -
  let ?d = "length (dfds st)"
  let ?st1 = "st\<lparr>dfds := dfds st @
                  [\<lparr>dfd_promise = Undefined, dfd_resolve = Undefined, dfd_reject = Undefined\<rparr>]\<rparr>"
  let ?ex = "\<lambda>resolve reject s. Some (Returned Undefined,
                s\<lparr>dfds := (dfds s)[?d := (dfds s ! ?d)\<lparr>dfd_resolve := resolve, dfd_reject := reject\<rparr>]\<rparr>)"
  from assms obtain pr st2 where np: "new_Promise ?ex ?st1 = Some (pr, st2)"
    and st': "st' = st2\<lparr>dfds := (dfds st2)[?d := (dfds st2 ! ?d)\<lparr>dfd_promise := pr\<rparr>]\<rparr>"
    unfolding deferred_def Let_def by (auto split: option.splits prod.splits)
  have "stable st ?st1" by (simp add: stable_same)
  moreover have "stable ?st1 st2"
    by (rule stable_new_Promise[OF _ np]) (auto simp: stable_same)
  moreover have "stable st2 st'" by (simp add: st' stable_same)
  ultimately show ?thesis by (blast intro: stable_trans)
qed

lemma stable_same_outcome:
  "stable st st' \<Longrightarrow> p < length (promises st) \<Longrightarrow> state (promises st ! p) \<noteq> PENDING \<Longrightarrow>
   same_outcome p st st'"
  by (auto simp: stable_def settled_kept_def same_outcome_def)

lemma stable_populated:
  "stable st st' \<Longrightarrow> list_all populated_ok (promises st) \<Longrightarrow> list_all populated_ok (promises st')"
  by (simp add: stable_def)

lemma populated_ok_one: "populated_ok pr \<Longrightarrow> value pr = Undefined \<or> reason pr = Undefined"
  by (cases "state pr") (auto simp: populated_ok_def)

section \<open>The guard flag of \<^verbatim>\<open>resolvePromise\<close>\<close>

lemma stable_flag_set:
  "stable st st' \<Longrightarrow> flag_set st called \<Longrightarrow> flag_set st' called"
  by (auto simp: stable_def flags_kept_def flag_set_def)

lemma call_inner_ignored:
  "flag_set st called \<Longrightarrow>
   call (Suc m) (OnInnerFulfilled called p2 res rej) this args st = Some (Returned Undefined, st)"
  "flag_set st called \<Longrightarrow>
   call (Suc m) (OnInnerRejected called rej) this args st = Some (Returned Undefined, st)"
  by (simp_all add: call_step_def)

lemma ignored_invocations:
  assumes fs: "flag_set st called"
    and fin: "\<exists>r. exec_stmts (call (Suc m)) [Fun (OnInnerFulfilled called p2 res rej), Fun (OnInnerRejected called rej')] final st = Some (r, st)"
  shows "\<exists>r. exec_stmts (call (Suc m)) [Fun (OnInnerFulfilled called p2 res rej), Fun (OnInnerRejected called rej')]
           (invocations calls @ final) st = Some (r, st)"
proof (induction calls)
  case Nil
  with fin show ?case by (simp add: invocations_def)
next
  case (Cons jw calls)
  obtain j w where jw: "jw = (j, w)" by (cases jw)
  consider "j = 0" | "j = 1" | "j \<ge> 2" by linarith
  then show ?case
  proof cases
    case 1
    with Cons jw fs show ?thesis
      by (simp add: invocations_def arg_def call_val_def call_step_def)
  next
    case 2
    with Cons jw fs show ?thesis
      by (simp add: invocations_def arg_def call_val_def call_step_def)
  next
    case 3
    with jw show ?thesis
      by (simp add: invocations_def arg_def call_val_def)
  qed
qed

lemma final_unchanged:
  "final = [] \<or> final = [Throw (Const e)] \<Longrightarrow> \<exists>r. exec_stmts c args final st = Some (r, st)"
  by auto

lemma thenable_first_fulfil:
  assumes fin: "final = [] \<or> final = [Throw (Const e)]"
    and th: "get_then x = Returned (Fun (User (invocations ((0, v) # calls) @ final)))"
    and ob: "isObject x \<or> isFunction x"
  shows "resolvePromise (call (Suc (Suc n))) p2 x res rej st =
     (case resolvePromise (call n) p2 v res rej (st\<lparr>flags := flags st @ [True]\<rparr>) of
        None \<Rightarrow> None
      | Some (r, st') \<Rightarrow> Some (Returned Undefined, st'))"
proof -
  let ?called = "length (flags st)"
  let ?st1 = "st\<lparr>flags := flags st @ [False]\<rparr>"
  let ?stT = "st\<lparr>flags := flags st @ [True]\<rparr>"
  let ?args = "[Fun (OnInnerFulfilled ?called p2 res rej), Fun (OnInnerRejected ?called rej)]"
  let ?rest = "invocations calls @ final"
  have sf: "set_flag ?called ?st1 = ?stT" by (simp add: set_flag_def)
  have nf: "\<not> flag_set ?st1 ?called" by (simp add: flag_set_def)
  have fT: "flag_set ?stT ?called" by (simp add: flag_set_def)
  have first: "call_val (call (Suc n)) (Fun (OnInnerFulfilled ?called p2 res rej)) Undefined [v] ?st1 =
      discard (resolvePromise (call n) p2 v res rej ?stT)"
    using nf sf by (simp add: call_val_def call_step_def arg_def)
  have ne: "PromiseRef p2 \<noteq> x" using th by auto
  have rp: "resolvePromise (call (Suc (Suc n))) p2 x res rej st =
     (case try_then (call (Suc (Suc n))) ?called p2 x res rej ?st1 of
        None \<Rightarrow> None
      | Some (Returned r, st2) \<Rightarrow> Some (Returned Undefined, st2)
      | Some (Threw error, st2) \<Rightarrow>
          if flag_set st2 ?called then Some (Returned Undefined, st2)
          else discard (call_val (call (Suc (Suc n))) rej Undefined [error] (set_flag ?called st2)))"
    using ne ob by (simp add: resolvePromise_def Let_def del: call.simps)
  have tt: "try_then (call (Suc (Suc n))) ?called p2 x res rej ?st1 =
      discard (exec_stmts (call (Suc n)) ?args (Invoke (Arg 0) [Const v] # ?rest) ?st1)"
    using th by (simp add: try_then_def invocations_def call_val_def
        call.simps(2)[of "Suc n"] call_step_def del: call.simps)
  have ex: "exec_stmts (call (Suc n)) ?args (Invoke (Arg 0) [Const v] # ?rest) ?st1 =
      (case discard (resolvePromise (call n) p2 v res rej ?stT) of
         None \<Rightarrow> None
       | Some (Threw x, st') \<Rightarrow> Some (Threw x, st')
       | Some (Returned r, st') \<Rightarrow> exec_stmts (call (Suc n)) ?args ?rest st')"
    using first by (simp add: arg_def del: call.simps)
  show ?thesis
  proof (cases "resolvePromise (call n) p2 v res rej ?stT")
    case None
    then show ?thesis unfolding rp tt ex by (simp add: discard_def del: call.simps)
  next
    case (Some a)
    obtain o1 st' where a: "a = (o1, st')" by (cases a)
    have "stable ?stT st'" using stable_resolvePromise[OF keeps_call] Some a by blast
    then have fs': "flag_set st' ?called" using fT by (rule stable_flag_set)
    show ?thesis
    proof (cases o1)
      case (Threw x)
      with Some a fs' show ?thesis unfolding rp tt ex by (simp add: discard_def del: call.simps)
    next
      case (Returned x)
      from ignored_invocations[OF fs' final_unchanged[OF fin], of n p2 res rej rej calls]
      obtain r where "exec_stmts (call (Suc n)) ?args ?rest st' = Some (r, st')" by blast
      with Some a fs' Returned show ?thesis unfolding rp tt ex
        by (cases r) (simp_all add: discard_def del: call.simps)
    qed
  qed
qed

lemma misbehaving_first_fulfil:
  assumes fin: "final = [] \<or> final = [Throw (Const e)]"
  shows "resolvePromise (call (Suc (Suc n))) p2 (misbehaving ((0, v) # calls) final) res rej st =
     (case resolvePromise (call n) p2 v res rej (st\<lparr>flags := flags st @ [True]\<rparr>) of
        None \<Rightarrow> None
      | Some (r, st') \<Rightarrow> Some (Returned Undefined, st'))"
  by (rule thenable_first_fulfil[OF fin]) (simp_all add: misbehaving_def)

lemma thenable_first_reject:
  assumes fin: "final = [] \<or> final = [Throw (Const e)]"
    and th: "get_then x = Returned (Fun (User (invocations ((1, v) # calls) @ final)))"
    and ob: "isObject x \<or> isFunction x"
  shows "resolvePromise (call (Suc (Suc n))) p2 x res rej st =
     (case call_val (call n) rej Undefined [v] (st\<lparr>flags := flags st @ [True]\<rparr>) of
        None \<Rightarrow> None
      | Some (r, st') \<Rightarrow> Some (Returned Undefined, st'))"
proof -
  let ?called = "length (flags st)"
  let ?st1 = "st\<lparr>flags := flags st @ [False]\<rparr>"
  let ?stT = "st\<lparr>flags := flags st @ [True]\<rparr>"
  let ?args = "[Fun (OnInnerFulfilled ?called p2 res rej), Fun (OnInnerRejected ?called rej)]"
  let ?rest = "invocations calls @ final"
  have sf: "set_flag ?called ?st1 = ?stT" by (simp add: set_flag_def)
  have nf: "\<not> flag_set ?st1 ?called" by (simp add: flag_set_def)
  have fT: "flag_set ?stT ?called" by (simp add: flag_set_def)
  have first: "call_val (call (Suc n)) (Fun (OnInnerRejected ?called rej)) Undefined [v] ?st1 =
      discard (call_val (call n) rej Undefined [v] ?stT)"
    using nf sf by (simp add: call_val_def call_step_def arg_def)
  have ne: "PromiseRef p2 \<noteq> x" using th by auto
  have rp: "resolvePromise (call (Suc (Suc n))) p2 x res rej st =
     (case try_then (call (Suc (Suc n))) ?called p2 x res rej ?st1 of
        None \<Rightarrow> None
      | Some (Returned r, st2) \<Rightarrow> Some (Returned Undefined, st2)
      | Some (Threw error, st2) \<Rightarrow>
          if flag_set st2 ?called then Some (Returned Undefined, st2)
          else discard (call_val (call (Suc (Suc n))) rej Undefined [error] (set_flag ?called st2)))"
    using ne ob by (simp add: resolvePromise_def Let_def del: call.simps)
  have tt: "try_then (call (Suc (Suc n))) ?called p2 x res rej ?st1 =
      discard (exec_stmts (call (Suc n)) ?args (Invoke (Arg 1) [Const v] # ?rest) ?st1)"
    using th by (simp add: try_then_def invocations_def call_val_def
        call.simps(2)[of "Suc n"] call_step_def del: call.simps)
  have ex: "exec_stmts (call (Suc n)) ?args (Invoke (Arg 1) [Const v] # ?rest) ?st1 =
      (case discard (call_val (call n) rej Undefined [v] ?stT) of
         None \<Rightarrow> None
       | Some (Threw x, st') \<Rightarrow> Some (Threw x, st')
       | Some (Returned r, st') \<Rightarrow> exec_stmts (call (Suc n)) ?args ?rest st')"
    using first by (simp add: arg_def del: call.simps)
  show ?thesis
  proof (cases "call_val (call n) rej Undefined [v] ?stT")
    case None
    then show ?thesis unfolding rp tt ex by (simp add: discard_def del: call.simps)
  next
    case (Some a)
    obtain o1 st' where a: "a = (o1, st')" by (cases a)
    have "stable ?stT st'" using stable_call_val[OF keeps_call] Some a by blast
    then have fs': "flag_set st' ?called" using fT by (rule stable_flag_set)
    show ?thesis
    proof (cases o1)
      case (Threw x)
      with Some a fs' show ?thesis unfolding rp tt ex by (simp add: discard_def del: call.simps)
    next
      case (Returned x)
      from ignored_invocations[OF fs' final_unchanged[OF fin], of n p2 res rej rej calls]
      obtain r where "exec_stmts (call (Suc n)) ?args ?rest st' = Some (r, st')" by blast
      with Some a fs' Returned show ?thesis unfolding rp tt ex
        by (cases r) (simp_all add: discard_def del: call.simps)
    qed
  qed
qed

lemma misbehaving_first_reject:
  assumes fin: "final = [] \<or> final = [Throw (Const e)]"
  shows "resolvePromise (call (Suc (Suc n))) p2 (misbehaving ((1, v) # calls) final) res rej st =
     (case call_val (call n) rej Undefined [v] (st\<lparr>flags := flags st @ [True]\<rparr>) of
        None \<Rightarrow> None
      | Some (r, st') \<Rightarrow> Some (Returned Undefined, st'))"
  by (rule thenable_first_reject[OF fin]) (simp_all add: misbehaving_def)

lemma inner_sets_flag:
  assumes "called < length (flags st)"
  shows "call d (OnInnerFulfilled called p2 res rej) this args st = Some (r, st') \<Longrightarrow> flag_set st' called"
    and "call d (OnInnerRejected called rej) this args st = Some (r, st') \<Longrightarrow> flag_set st' called"
proof -
  have fs: "flag_set (set_flag called st) called" using assms by (simp add: flag_set_def set_flag_def)
  {
    assume c: "call d (OnInnerFulfilled called p2 res rej) this args st = Some (r, st')"
    then obtain m where d: "d = Suc m" by (cases d) auto
    show "flag_set st' called"
    proof (cases "flag_set st called")
      case True
      with c d show ?thesis by (simp add: call_step_def)
    next
      case False
      with c d obtain r' where "resolvePromise (call m) p2 (arg args 0) res rej (set_flag called st) = Some (r', st')"
        by (auto simp: call_step_def dest!: discard_Some)
      then have "stable (set_flag called st) st'" by (rule stable_resolvePromise[OF keeps_call])
      then show ?thesis using fs by (rule stable_flag_set)
    qed
  }
  {
    assume c: "call d (OnInnerRejected called rej) this args st = Some (r, st')"
    then obtain m where d: "d = Suc m" by (cases d) auto
    show "flag_set st' called"
    proof (cases "flag_set st called")
      case True
      with c d show ?thesis by (simp add: call_step_def)
    next
      case False
      with c d obtain r' where "call_val (call m) rej Undefined [arg args 0] (set_flag called st) = Some (r', st')"
        by (auto simp: call_step_def dest!: discard_Some)
      then have "stable (set_flag called st) st'" by (rule stable_call_val[OF keeps_call])
      then show ?thesis using fs by (rule stable_flag_set)
    qed
  }
qed

lemma resolve_plain:
  assumes "\<not> isObject v" and "\<not> isFunction v"
  shows "resolvePromise (call (Suc n)) p2 v (Fun (ResolveCap p2)) rej st =
     Some (Returned Undefined, st\<lparr>flags := flags st @ [False], tasks := tasks st @ [SettleResolved p2 v]\<rparr>)"
  using assms
  by (cases v) (simp_all add: resolvePromise_def Let_def call_val_def call_step_def resolve_cap_def
      nextTick_def arg_def discard_def)

lemma resolve_self:
  "resolvePromise (call (Suc n)) p2 (PromiseRef p2) res (Fun (RejectCap p2)) st =
     Some (Returned Undefined, st\<lparr>tasks := tasks st @ [SettleRejected p2 cycle_error]\<rparr>)"
  by (simp add: resolvePromise_def call_val_def call_step_def reject_cap_def nextTick_def arg_def)

section \<open>The operations, one at a time\<close>

lemma nth_app1: "(xs @ a # b # ys) ! Suc (length xs) = b"
  by (simp add: nth_append)
lemma nth_app2: "(xs @ a # b # c # ys) ! Suc (Suc (length xs)) = c"
  by (simp add: nth_append)
lemma upd_app1: "(xs @ a # b # ys)[Suc (length xs) := z] = xs @ a # z # ys"
  by (simp add: list_update_append)
lemma upd_app2: "(xs @ a # b # c # ys)[Suc (Suc (length xs)) := z] = xs @ a # b # z # ys"
  by (simp add: list_update_append)

lemmas store_simps = nth_append_length nth_app1 nth_app2 list_update_length upd_app1 upd_app2

lemma call_user_return_arg:
  "call_val (call (Suc n)) (Fun (User [Return (Arg 0)])) Undefined [x] s = Some (Returned x, s)"
  by (simp add: call_val_def call_step_def arg_def)

lemma call_user_throw_arg:
  "call_val (call (Suc n)) (Fun (User [Throw (Arg 0)])) Undefined [x] s = Some (Threw x, s)"
  by (simp add: call_val_def call_step_def arg_def)

lemma call_user_throw_const:
  "call_val (call (Suc n)) (Fun (User [Throw (Const e)])) this args s = Some (Threw e, s)"
  by (simp add: call_val_def call_step_def arg_def)

lemma call_reject_cap:
  "call_val (call (Suc n)) (Fun (RejectCap p)) this [x] s =
     Some (Returned Undefined, s\<lparr>tasks := tasks s @ [SettleRejected p x]\<rparr>)"
  by (simp add: call_val_def call_step_def arg_def reject_cap_def nextTick_def)

lemma call_resolve_cap:
  "call_val (call (Suc n)) (Fun (ResolveCap p)) this [x] s =
     Some (Returned Undefined, s\<lparr>tasks := tasks s @ [SettleResolved p x]\<rparr>)"
  by (simp add: call_val_def call_step_def arg_def resolve_cap_def nextTick_def)

lemma new_Promise_resolving:
  "new_Promise (user_executor (call (Suc (Suc n))) (Fun (User [Invoke (Arg 0) [Const v]]))) st =
     Some (PromiseRef (length (promises st)),
       st\<lparr>promises := promises st @ [init_promise],
          tasks := tasks st @ [SettleResolved (length (promises st)) v]\<rparr>)"
  by (simp add: new_Promise_def user_executor_def call_val_def call_step_def arg_def
      resolve_cap_def nextTick_def Let_def)

lemma new_Promise_rejecting:
  "new_Promise (user_executor (call (Suc (Suc n))) (Fun (User [Invoke (Arg (Suc 0)) [Const v]]))) st =
     Some (PromiseRef (length (promises st)),
       st\<lparr>promises := promises st @ [init_promise],
          tasks := tasks st @ [SettleRejected (length (promises st)) v]\<rparr>)"
  by (simp add: new_Promise_def user_executor_def call_val_def call_step_def arg_def
      reject_cap_def nextTick_def Let_def)

lemma new_Promise_throwing:
  "new_Promise (user_executor (call (Suc n)) (Fun (User [Throw (Const v)]))) st =
     Some (PromiseRef (length (promises st)),
       st\<lparr>promises := promises st @ [init_promise],
          tasks := tasks st @ [SettleRejected (length (promises st)) v]\<rparr>)"
  by (simp add: new_Promise_def user_executor_def call_val_def call_step_def arg_def
      reject_cap_def nextTick_def Let_def)

lemma then_on_pending:
  assumes "p < length (promises st)" and "state (promises st ! p) = PENDING"
  shows "promise_then (PromiseRef p) f g st =
     Some (PromiseRef (length (promises st)),
       st\<lparr>promises := (promises st)[p := (promises st ! p)
            \<lparr>resolvedCallbacks := resolvedCallbacks (promises st ! p) @
               [CallOnFulfilled (PromiseRef p) (or_default f (Return (Arg 0))) (length (promises st))
                  (Fun (ResolveCap (length (promises st)))) (Fun (RejectCap (length (promises st))))],
             rejectedCallbacks := rejectedCallbacks (promises st ! p) @
               [CallOnRejected (PromiseRef p) (or_default g (Throw (Arg 0))) (length (promises st))
                  (Fun (ResolveCap (length (promises st)))) (Fun (RejectCap (length (promises st))))]\<rparr>]
            @ [init_promise]\<rparr>)"
  using assms
  by (simp add: promise_then_def new_Promise_def then_executor_def Let_def field_state_def
      push_callbacks_def nextTick_def nth_append list_update_append or_default_def)

lemma then_on_resolved:
  assumes "p < length (promises st)" and "state (promises st ! p) = RESOLVED"
  shows "promise_then (PromiseRef p) f g st =
     Some (PromiseRef (length (promises st)),
       st\<lparr>promises := promises st @ [init_promise],
          tasks := tasks st @ [RunCallback
               (CallOnFulfilled (PromiseRef p) (or_default f (Return (Arg 0))) (length (promises st))
                  (Fun (ResolveCap (length (promises st)))) (Fun (RejectCap (length (promises st)))))]\<rparr>)"
  using assms
  by (simp add: promise_then_def new_Promise_def then_executor_def Let_def field_state_def
      push_callbacks_def nextTick_def nth_append or_default_def)

lemma then_on_rejected:
  assumes "p < length (promises st)" and "state (promises st ! p) = REJECTED"
  shows "promise_then (PromiseRef p) f g st =
     Some (PromiseRef (length (promises st)),
       st\<lparr>promises := promises st @ [init_promise],
          tasks := tasks st @ [RunCallback
               (CallOnRejected (PromiseRef p) (or_default g (Throw (Arg 0))) (length (promises st))
                  (Fun (ResolveCap (length (promises st)))) (Fun (RejectCap (length (promises st)))))]\<rparr>)"
  using assms
  by (simp add: promise_then_def new_Promise_def then_executor_def Let_def field_state_def
      push_callbacks_def nextTick_def nth_append or_default_def)

lemma settle_resolved_pending:
  assumes "p < length (promises st)" and "state (promises st ! p) = PENDING"
  shows "settle_resolved c p v st =
     forEach c (resolvedCallbacks (promises st ! p))
       (st\<lparr>promises := (promises st)[p := (promises st ! p)\<lparr>state := RESOLVED, value := v\<rparr>]\<rparr>)"
  using assms by (simp add: settle_resolved_def field_state_def)

lemma settle_rejected_pending:
  assumes "p < length (promises st)" and "state (promises st ! p) = PENDING"
  shows "settle_rejected c p v st =
     forEach c (rejectedCallbacks (promises st ! p))
       (st\<lparr>promises := (promises st)[p := (promises st ! p)\<lparr>state := REJECTED, reason := v\<rparr>]\<rparr>)"
  using assms by (simp add: settle_rejected_def field_state_def)

lemma handle_returns_plain:
  assumes "call_val (call (Suc n)) h Undefined [x] s = Some (Returned v, s1)"
    and "\<not> isObject v" and "\<not> isFunction v"
  shows "handle (call (Suc n)) h x p2 (Fun (ResolveCap p2)) (Fun (RejectCap p2)) s =
     Some (Returned Undefined,
       s1\<lparr>flags := flags s1 @ [False], tasks := tasks s1 @ [SettleResolved p2 v]\<rparr>)"
  using assms by (simp add: handle_def resolve_plain del: call.simps)

lemma handle_throws:
  assumes "call_val (call (Suc n)) h Undefined [x] s = Some (Threw e, s1)"
  shows "handle (call (Suc n)) h x p2 res (Fun (RejectCap p2)) s =
     Some (Returned Undefined, s1\<lparr>tasks := tasks s1 @ [SettleRejected p2 e]\<rparr>)"
  using assms by (simp add: handle_def call_reject_cap discard_def del: call.simps)

lemma event_loop_step:
  "tasks st = fn # fns \<Longrightarrow>
   event_loop d (Suc k) st =
     (case exec_task (call d) fn (st\<lparr>tasks := fns\<rparr>) of
        None \<Rightarrow> None
      | Some (Threw e, st') \<Rightarrow> Some (Threw e, st')
      | Some (Returned r, st') \<Rightarrow> event_loop d k st')"
  by simp

lemma event_loop_done: "tasks st = [] \<Longrightarrow> event_loop d k st = Some (Returned Undefined, st)"
  by (cases k) simp_all

lemma or_default_simps:
  "or_default Undefined s = Fun (User [s])"
  "or_default Null s = Fun (User [s])"
  "or_default (Fun f) s = Fun f"
  by (simp_all add: or_default_def)

lemmas run_simps =
  new_Promise_resolving new_Promise_rejecting new_Promise_throwing
  then_on_pending then_on_resolved then_on_rejected or_default_simps
  settle_resolved_pending settle_rejected_pending
  call_user_return_arg call_user_throw_arg call_user_throw_const call_reject_cap call_resolve_cap
  handle_returns_plain handle_throws
  store_simps init_promise_def field_value_def field_reason_def

lemma call_user_emit:
  "call_val (call (Suc n)) (Fun (User [Emit (Const a)])) this args s =
     Some (Returned Undefined, s\<lparr>trace := trace s @ [a]\<rparr>)"
  by (simp add: call_val_def call_step_def)

lemma call_user_message:
  "call_val (call (Suc n)) (Fun (User [Return (Message (Arg 0))])) this [ErrorObj nm m] s =
     Some (Returned (Str m), s)"
  by (simp add: call_val_def call_step_def arg_def)

lemma promise_then_trace:
  "promise_then this f g st = Some (r, st') \<Longrightarrow> trace st' = trace st"
  by (auto simp: promise_then_def new_Promise_def then_executor_def Let_def nextTick_def
      reject_cap_def push_callbacks_def split: if_splits val.splits)

lemma runs_to_stable: "runs_to st st' \<Longrightarrow> stable st st'"
proof (induction rule: runs_to.induct)
  case (start st)
  show ?case by (rule stable_refl)
next
  case (timers st st1 d k r st2)
  then show ?case by (blast intro: stable_trans stable_event_loop)
next
  case (called st st1 d f this args r st2)
  then show ?case using keeps_call[of d] by (auto simp: keeps_def intro: stable_trans)
next
  case (chained st st1 this f g v st2)
  then show ?case by (blast intro: stable_trans stable_promise_then)
next
  case (constructed st st1 d f v st2)
  have "stable st1 st2"
    by (rule stable_new_Promise[OF _ constructed.hyps(2)]) (rule stable_user_executor[OF keeps_call])
  with constructed.IH show ?case by (rule stable_trans)
next
  case (deferred st st1 h st2)
  then show ?case by (blast intro: stable_trans stable_deferred)
qed

section \<open>The two machines of the examples are reached by programs\<close>

lemma settled_machine_reached:
  "new_Promise (user_executor (call 2) (Fun (User [Invoke (Arg 0) [Const (Num 1)]]))) empty_machine =
     Some (PromiseRef 0, empty_machine\<lparr>promises := [init_promise], tasks := [SettleResolved 0 (Num 1)]\<rparr>)
   \<and> event_loop 0 1 (empty_machine\<lparr>promises := [init_promise], tasks := [SettleResolved 0 (Num 1)]\<rparr>) =
     Some (Returned Undefined, settled_machine)"
  by (simp add: new_Promise_def user_executor_def call_val_def call_step_def numeral_2_eq_2
      empty_machine_def settled_machine_def arg_def resolve_cap_def nextTick_def init_promise_def
      settle_resolved_def field_state_def Let_def)

lemma pending_machine_reached:
  "new_Promise (user_executor (call 1) (Fun (User []))) empty_machine =
     Some (PromiseRef 0, pending_machine)"
  by (simp add: new_Promise_def user_executor_def call_val_def call_step_def
      empty_machine_def pending_machine_def Let_def)

section \<open>Registration order and adoption\<close>

lemma nth_upd_app_p: "p < length xs \<Longrightarrow> (xs[p := z] @ ys) ! p = z"
  by (simp add: nth_append)

lemma upd_upd_app_p: "p < length xs \<Longrightarrow> (xs[p := z] @ ys)[p := c] = xs[p := c] @ ys"
  by (simp add: list_update_append)

lemma nth_upd_app_N: "(xs[p := z] @ a # ys) ! length xs = a"
  by (simp add: nth_append)

lemma upd_upd_app_N: "(xs[p := z] @ a # ys)[length xs := c] = xs[p := z] @ c # ys"
  by (simp add: list_update_append)

lemma nth_app_lt: "q < length xs \<Longrightarrow> (xs @ ys) ! q = xs ! q"
  by (simp add: nth_append)

lemma then_all_pending:
  assumes "p < length (promises st)" and "state (promises st ! p) = PENDING"
  shows "then_all (PromiseRef p) hs st =
     Some (st\<lparr>promises := (promises st)[p := (promises st ! p)
        \<lparr>resolvedCallbacks := resolvedCallbacks (promises st ! p)
            @ queued_fulfilled (PromiseRef p) (length (promises st)) hs,
         rejectedCallbacks := rejectedCallbacks (promises st ! p)
            @ queued_rejected (PromiseRef p) (length (promises st)) hs\<rparr>]
        @ replicate (length hs) init_promise\<rparr>)"
  using assms
proof (induction hs arbitrary: st)
  case Nil
  then show ?case by simp
next
  case (Cons fg hs)
  obtain f g where fg: "fg = (f, g)" by (cases fg)
  let ?N = "length (promises st)"
  let ?P1 = "(promises st ! p)
            \<lparr>resolvedCallbacks := resolvedCallbacks (promises st ! p) @
               [CallOnFulfilled (PromiseRef p) (or_default f (Return (Arg 0))) ?N
                  (Fun (ResolveCap ?N)) (Fun (RejectCap ?N))],
             rejectedCallbacks := rejectedCallbacks (promises st ! p) @
               [CallOnRejected (PromiseRef p) (or_default g (Throw (Arg 0))) ?N
                  (Fun (ResolveCap ?N)) (Fun (RejectCap ?N))]\<rparr>"
  let ?st1 = "st\<lparr>promises := (promises st)[p := ?P1] @ [init_promise]\<rparr>"
  have t: "promise_then (PromiseRef p) f g st = Some (PromiseRef ?N, ?st1)"
    by (rule then_on_pending[OF Cons.prems])
  have p1: "p < length (promises ?st1)" "state (promises ?st1 ! p) = PENDING"
    "length (promises ?st1) = Suc ?N" "promises ?st1 ! p = ?P1"
    using Cons.prems by (simp_all add: nth_upd_app_p)
  show ?case
    unfolding fg then_all.simps t option.case prod.case Cons.IH[OF p1(1,2)] p1(3,4)
    using Cons.prems(1)
    by (simp add: upd_upd_app_p replicate_app_Cons_same)
qed

lemma forEach_append:
  "forEach c (xs @ ys) st =
     (case forEach c xs st of
        None \<Rightarrow> None
      | Some (Threw e, st') \<Rightarrow> Some (Threw e, st')
      | Some (Returned r, st') \<Rightarrow> forEach c ys st')"
proof (induction xs arbitrary: st)
  case Nil
  show ?case by simp
next
  case (Cons fn xs)
  show ?case
  proof (cases "run_callback c fn st")
    case None
    then show ?thesis by simp
  next
    case (Some a)
    obtain o1 st1 where "a = (o1, st1)" by (cases a)
    with Some Cons.IH[of st1] show ?thesis by (cases o1) simp_all
  qed
qed

lemma handle_emit:
  "handle (call (Suc n)) (Fun (User [Emit (Const a)])) x q (Fun (ResolveCap q)) (Fun (RejectCap q)) s =
     Some (Returned Undefined,
       s\<lparr>flags := flags s @ [False], tasks := tasks s @ [SettleResolved q Undefined], trace := trace s @ [a]\<rparr>)"
  by (subst handle_returns_plain[where v = Undefined and ?s1.0 = "s\<lparr>trace := trace s @ [a]\<rparr>"])
     (simp_all add: call_user_emit del: call.simps)

lemma forEach_emitters_fulfilled:
  "forEach (call (Suc n)) (queued_fulfilled this m (emitters es)) s =
     Some (Returned Undefined,
       s\<lparr>flags := flags s @ replicate (length es) False,
         tasks := tasks s @ map (\<lambda>i. SettleResolved i Undefined) [m..<m + length es],
         trace := trace s @ map fst es\<rparr>)"
proof (induction es arbitrary: m s)
  case Nil
  show ?case by (simp add: emitters_def)
next
  case (Cons ab es)
  obtain a b where ab: "ab = (a, b)" by (cases ab)
  have e: "emitters (ab # es) = (Fun (User [Emit (Const a)]), Fun (User [Emit (Const b)])) # emitters es"
    by (simp add: emitters_def ab)
  have u: "[m..<m + length (ab # es)] = m # [Suc m..<Suc m + length es]"
    by (subst upt_rec) simp
  show ?case
    unfolding e u
    by (simp add: or_default_simps handle_emit Cons.IH field_value_def ab replicate_app_Cons_same
        del: call.simps upt_Suc)
qed

lemma forEach_emitters_rejected:
  "forEach (call (Suc n)) (queued_rejected this m (emitters es)) s =
     Some (Returned Undefined,
       s\<lparr>flags := flags s @ replicate (length es) False,
         tasks := tasks s @ map (\<lambda>i. SettleResolved i Undefined) [m..<m + length es],
         trace := trace s @ map snd es\<rparr>)"
proof (induction es arbitrary: m s)
  case Nil
  show ?case by (simp add: emitters_def)
next
  case (Cons ab es)
  obtain a b where ab: "ab = (a, b)" by (cases ab)
  have e: "emitters (ab # es) = (Fun (User [Emit (Const a)]), Fun (User [Emit (Const b)])) # emitters es"
    by (simp add: emitters_def ab)
  have u: "[m..<m + length (ab # es)] = m # [Suc m..<Suc m + length es]"
    by (subst upt_rec) simp
  show ?case
    unfolding e u
    by (simp add: or_default_simps handle_emit Cons.IH field_reason_def ab replicate_app_Cons_same
        del: call.simps upt_Suc)
qed

lemma drain_fresh:
  assumes "tasks s = map (\<lambda>i. SettleResolved i Undefined) qs"
    and "\<forall>q \<in> set qs. q < length (promises s) \<and> resolvedCallbacks (promises s ! q) = []"
  shows "\<exists>s'. event_loop d (length qs) s = Some (Returned Undefined, s') \<and> tasks s' = []
      \<and> trace s' = trace s \<and> length (promises s') = length (promises s)
      \<and> (\<forall>q \<in> set qs. state (promises s' ! q) \<noteq> PENDING)"
  using assms
proof (induction qs arbitrary: s)
  case Nil
  then show ?case by simp
next
  case (Cons q qs)
  let ?s0 = "s\<lparr>tasks := map (\<lambda>i. SettleResolved i Undefined) qs\<rparr>"
  have q: "q < length (promises s)" "resolvedCallbacks (promises s ! q) = []"
    using Cons.prems(2) by simp_all
  obtain s1 where s1: "settle_resolved (call d) q Undefined ?s0 = Some (Returned Undefined, s1)"
    and t1: "tasks s1 = map (\<lambda>i. SettleResolved i Undefined) qs"
    and tr1: "trace s1 = trace s" and l1: "length (promises s1) = length (promises s)"
    and c1: "\<forall>i < length (promises s). resolvedCallbacks (promises s1 ! i) = resolvedCallbacks (promises s ! i)"
    and d1: "state (promises s1 ! q) \<noteq> PENDING"
  proof (cases "state (promises s ! q) = PENDING")
    case True
    show ?thesis
      by (rule that[of "?s0\<lparr>promises := (promises s)[q := (promises s ! q)\<lparr>state := RESOLVED, value := Undefined\<rparr>]\<rparr>"])
         (use q True in \<open>simp_all add: settle_resolved_def field_state_def nth_list_update\<close>)
  next
    case False
    show ?thesis
      by (rule that[of ?s0]) (use q False in \<open>simp_all add: settle_resolved_def field_state_def\<close>)
  qed
  have pre: "\<forall>q' \<in> set qs. q' < length (promises s1) \<and> resolvedCallbacks (promises s1 ! q') = []"
    using Cons.prems(2) l1 c1 by simp
  from Cons.IH[OF t1 pre] obtain s' where s': "event_loop d (length qs) s1 = Some (Returned Undefined, s')"
    "tasks s' = []" "trace s' = trace s1" "length (promises s') = length (promises s1)"
    "\<forall>q \<in> set qs. state (promises s' ! q) \<noteq> PENDING"
    by blast
  have "stable s1 s'" using s'(1) by (rule stable_event_loop)
  then have "state (promises s' ! q) \<noteq> PENDING"
    using d1 q(1) l1 by (auto simp: stable_def settled_kept_def)
  with s' s1 tr1 l1 Cons.prems(1) show ?case by simp
qed

lemma settle_then_drain:
  "\<exists>s'. event_loop d k
            (s\<lparr>promises := ps[p := P'] @ replicate k init_promise, flags := fl,
               tasks := map (\<lambda>i. SettleResolved i Undefined) [length ps..<length ps + k], trace := tr\<rparr>)
          = Some (Returned Undefined, s') \<and> tasks s' = [] \<and> trace s' = tr"
proof -
  let ?s = "s\<lparr>promises := ps[p := P'] @ replicate k init_promise, flags := fl,
               tasks := map (\<lambda>i. SettleResolved i Undefined) [length ps..<length ps + k], trace := tr\<rparr>"
  have a: "tasks ?s = map (\<lambda>i. SettleResolved i Undefined) [length ps..<length ps + k]" by simp
  have b: "\<forall>q \<in> set [length ps..<length ps + k]. q < length (promises ?s) \<and>
             resolvedCallbacks (promises ?s ! q) = []"
    by (auto simp: nth_append init_promise_def)
  from drain_fresh[OF a b, of d] show ?thesis by auto
qed

lemma call_user_return_const:
  "call_val (call (Suc n)) (Fun (User [Return (Const y)])) this args s = Some (Returned y, s)"
  by (simp add: call_val_def call_step_def)

lemma handle_returns_self:
  assumes "call_val (call (Suc n)) h Undefined [u] s = Some (Returned (PromiseRef p2), s1)"
  shows "handle (call (Suc n)) h u p2 res (Fun (RejectCap p2)) s =
     Some (Returned Undefined, s1\<lparr>tasks := tasks s1 @ [SettleRejected p2 cycle_error]\<rparr>)"
  using assms by (simp add: handle_def resolve_self del: call.simps)

lemma call_caps:
  "call (Suc n) (ResolveCap p) this [v] s =
     Some (Returned Undefined, s\<lparr>tasks := tasks s @ [SettleResolved p v]\<rparr>)"
  "call (Suc n) (RejectCap p) this [v] s =
     Some (Returned Undefined, s\<lparr>tasks := tasks s @ [SettleRejected p v]\<rparr>)"
  by (simp_all add: call_step_def resolve_cap_def reject_cap_def nextTick_def arg_def)

lemmas parent_simps = call_caps
  then_on_pending then_on_resolved then_on_rejected or_default_simps
  settle_resolved_pending settle_rejected_pending
  nth_append_length list_update_length nth_upd_app_p upd_upd_app_p nth_upd_app_N upd_upd_app_N
  nth_app_lt init_promise_def field_value_def field_reason_def call_user_return_const

lemma resolve_nested_thenable:
  assumes "\<not> isObject v" and "\<not> isFunction v"
  shows "resolvePromise (call (Suc (2 * length bs + n))) p2 (nested_thenable bs v)
           (Fun (ResolveCap p2)) (Fun (RejectCap p2)) st =
     Some (Returned Undefined,
       st\<lparr>flags := flags st @ replicate (length bs) True @ [False],
          tasks := tasks st @ [SettleResolved p2 v]\<rparr>)"
proof (induction bs arbitrary: st)
  case Nil
  show ?case using resolve_plain[OF assms, of n p2] by simp
next
  case (Cons b bs)
  have fin: "([]::stmt list) = [] \<or> [] = [Throw (Const Undefined)]" by simp
  have th: "get_then (nested_thenable (b # bs) v) =
      Returned (Fun (User (invocations ((0, nested_thenable bs v) # []) @ [])))"
    by (simp add: function_fulfilling_def thenable_fulfilling_def invocations_def)
  have ob: "isObject (nested_thenable (b # bs) v) \<or> isFunction (nested_thenable (b # bs) v)"
    by (simp add: function_fulfilling_def thenable_fulfilling_def)
  have "resolvePromise (call (Suc (Suc (Suc (2 * length bs + n))))) p2 (nested_thenable (b # bs) v)
          (Fun (ResolveCap p2)) (Fun (RejectCap p2)) st =
        Some (Returned Undefined,
       st\<lparr>flags := flags st @ replicate (length (b # bs)) True @ [False],
          tasks := tasks st @ [SettleResolved p2 v]\<rparr>)"
    by (simp add: thenable_first_fulfil[OF fin th ob] Cons.IH del: call.simps nested_thenable.simps)
  then show ?case by (simp del: call.simps nested_thenable.simps)
qed

lemma resolve_adopts_user:
  assumes pl: "\<not> isObject v" "\<not> isFunction v"
    and fin: "final = [] \<or> final = [Throw (Const e)]"
    and th: "get_then x = Returned (Fun (User (invocations ((0, nested_thenable bs v) # calls) @ final)))"
    and ob: "isObject x \<or> isFunction x"
  shows "resolvePromise (call (Suc (Suc (Suc (2 * length bs + n))))) p2 x
           (Fun (ResolveCap p2)) (Fun (RejectCap p2)) st =
     Some (Returned Undefined,
       st\<lparr>flags := flags st @ True # replicate (length bs) True @ [False],
          tasks := tasks st @ [SettleResolved p2 v]\<rparr>)"
  by (simp add: thenable_first_fulfil[OF fin th ob] resolve_nested_thenable[OF pl] del: call.simps)

lemma handle_adopts_user:
  assumes pl: "\<not> isObject v" "\<not> isFunction v"
    and fin: "final = [] \<or> final = [Throw (Const e)]"
    and th: "get_then x = Returned (Fun (User (invocations ((0, nested_thenable bs v) # calls) @ final)))"
    and ob: "isObject x \<or> isFunction x"
  shows "handle (call (Suc (Suc (Suc (2 * length bs + n))))) (Fun (User [Return (Const x)])) u p2
           (Fun (ResolveCap p2)) (Fun (RejectCap p2)) s =
     Some (Returned Undefined,
       s\<lparr>flags := flags s @ True # replicate (length bs) True @ [False],
          tasks := tasks s @ [SettleResolved p2 v]\<rparr>)"
  by (simp add: handle_def call_user_return_const resolve_adopts_user[OF assms] del: call.simps)

lemma handle_adopts_first_call:
  assumes c: "call_val (call (Suc (Suc n))) h Undefined [u] s = Some (Returned y, s1)"
    and th: "get_then y = Returned (Fun (User (invocations ((0, w) # calls) @ final)))"
    and ob: "isObject y \<or> isFunction y"
    and fin: "final = [] \<or> final = [Throw (Const e)]"
  shows "handle (call (Suc (Suc n))) h u p2 res rej s =
     (case resolvePromise (call n) p2 w res rej (s1\<lparr>flags := flags s1 @ [True]\<rparr>) of
        None \<Rightarrow> None
      | Some (r, s2) \<Rightarrow> Some (Returned Undefined, s2))"
  by (simp add: handle_def c thenable_first_fulfil[OF fin th ob]
      split: option.splits prod.splits del: call.simps)

lemma handle_adopts_library:
  assumes c: "call_val (call (Suc n)) h Undefined [u] s = Some (Returned (PromiseRef q), s1)"
    and ne: "q \<noteq> p2"
  shows "handle (call (Suc n)) h u p2 res rej s =
     (case promise_then (PromiseRef q)
             (Fun (OnInnerFulfilled (length (flags s1)) p2 res rej))
             (Fun (OnInnerRejected (length (flags s1)) rej))
             (s1\<lparr>flags := flags s1 @ [False]\<rparr>) of
        None \<Rightarrow> None
      | Some (r, s2) \<Rightarrow> Some (Returned Undefined, s2))"
  using ne c
  by (simp add: handle_def resolvePromise_def try_then_def Let_def call_val_def call_step_def arg_def discard_def
      split: option.splits prod.splits)

lemma adoption_callback_fulfilled:
  assumes "called < length (flags s)" and "\<not> flags s ! called"
    and "\<not> isObject v" and "\<not> isFunction v"
  shows "handle (call (Suc (Suc n)))
           (Fun (OnInnerFulfilled called p2 (Fun (ResolveCap p2)) (Fun (RejectCap p2)))) v
           m (Fun (ResolveCap m)) (Fun (RejectCap m)) s =
     Some (Returned Undefined,
       s\<lparr>flags := (flags s)[called := True] @ [False, False],
         tasks := tasks s @ [SettleResolved p2 v, SettleResolved m Undefined]\<rparr>)"
proof -
  have c: "call_val (call (Suc (Suc n)))
        (Fun (OnInnerFulfilled called p2 (Fun (ResolveCap p2)) (Fun (RejectCap p2)))) Undefined [v] s =
      Some (Returned Undefined,
        s\<lparr>flags := (flags s)[called := True] @ [False], tasks := tasks s @ [SettleResolved p2 v]\<rparr>)"
    using assms(1,2)
    by (simp add: call_val_def call.simps(2)[of "Suc n"] call_step_def flag_set_def set_flag_def arg_def
        resolve_plain[OF assms(3,4)] discard_def del: call.simps)
  show ?thesis
    by (simp add: handle_returns_plain[OF c] del: call.simps)
qed

lemma nth_upd_app_q: "q < length xs \<Longrightarrow> q \<noteq> p \<Longrightarrow> (xs[p := z] @ ys) ! q = xs ! q"
  by (simp add: nth_append)

lemma nth_upd_app_N1: "(xs[p := z] @ a # b # ys) ! Suc (length xs) = b"
  by (simp add: nth_append)

lemma upd_upd_app_N1: "(xs[p := z] @ a # b # ys)[Suc (length xs) := c] = xs[p := z] @ a # c # ys"
  by (simp add: list_update_append)

lemmas adopt_simps = parent_simps nth_upd_app_q nth_upd_app_N1 upd_upd_app_N1 nth_app1 upd_app1

section \<open>The claims\<close>

text \<open>
  C1 as stated fails: the \<^verbatim>\<open>resolve\<close> capability stores whatever it is given.
  \<^verbatim>\<open>new Promise(res => res({then(res, rej) { res(42) }}))\<close> is fulfilled with the
  thenable object itself.
\<close>

theorem resolve_capability_keeps_thenable:
  "new_Promise (user_executor (call 2) (Fun (User [Invoke (Arg 0) [Const (thenable_fulfilling (Num 42))]])))
     empty_machine =
     Some (PromiseRef 0, empty_machine\<lparr>promises := [init_promise],
        tasks := [SettleResolved 0 (thenable_fulfilling (Num 42))]\<rparr>)
   \<and> event_loop 2 1 (empty_machine\<lparr>promises := [init_promise],
        tasks := [SettleResolved 0 (thenable_fulfilling (Num 42))]\<rparr>) =
     Some (Returned Undefined, empty_machine\<lparr>promises :=
        [init_promise\<lparr>state := RESOLVED, value := thenable_fulfilling (Num 42)\<rparr>]\<rparr>)
   \<and> thenable_fulfilling (Num 42) \<noteq> Num 42"
  by (simp add: new_Promise_def user_executor_def call_val_def call_step_def numeral_2_eq_2
      empty_machine_def arg_def resolve_cap_def nextTick_def init_promise_def settle_resolved_def
      field_state_def thenable_fulfilling_def Let_def)

text \<open>
  C1, amended. Adoption is what \<^verbatim>\<open>resolvePromise\<close> does with the value a handler returns.
  Whichever closure of \<^verbatim>\<open>then\<close> runs and whatever the handler is: when it returns an
  object or function whose \<^verbatim>\<open>then\<close> first calls its first callback with \<open>z\<close>, the
  closure does what resolving with \<open>z\<close> does, whatever that \<^verbatim>\<open>then\<close> does afterwards;
  when it returns a promise of the library, the two adopting callbacks are registered on
  that promise by its own \<^verbatim>\<open>then\<close>. For a parent that is fulfilled, rejected, or pending
  and then settled either way, a handler returning a thenable \<open>x\<close> (object or function,
  well behaved or not) whose \<^verbatim>\<open>then\<close> first fulfils with thenables nested around a plain
  \<open>v\<close>, or returning a library promise fulfilled with \<open>v\<close>, makes the promise \<^verbatim>\<open>then\<close>
  returned end fulfilled with \<open>v\<close>, not with \<open>x\<close>. With \<open>v = 42\<close> this is the example of the
  claim.
\<close>

theorem then_adopts_thenable:
  assumes e: "tasks st = []" and p: "p < length (promises st)"
    and em: "state (promises st ! p) = PENDING \<longrightarrow>
           resolvedCallbacks (promises st ! p) = [] \<and> rejectedCallbacks (promises st ! p) = []"
    and pl: "\<not> isObject v" "\<not> isFunction v"
    and fin: "final = [] \<or> final = [Throw (Const e)]"
    and th: "get_then x = Returned (Fun (User (invocations ((0, nested_thenable bs v) # calls) @ final)))"
    and ob: "isObject x \<or> isFunction x"
    and q: "q < length (promises st)" "state (promises st ! q) = RESOLVED" "value (promises st ! q) = v"
  shows "(\<forall>h u y z s s1 p2 res rej cs fi e'.
            call_val (call (Suc (Suc n))) h Undefined [u] s = Some (Returned y, s1)
          \<and> get_then y = Returned (Fun (User (invocations ((0, z) # cs) @ fi)))
          \<and> (isObject y \<or> isFunction y) \<and> (fi = [] \<or> fi = [Throw (Const e')]) \<longrightarrow>
            handle (call (Suc (Suc n))) h u p2 res rej s =
              (case resolvePromise (call n) p2 z res rej (s1\<lparr>flags := flags s1 @ [True]\<rparr>) of
                 None \<Rightarrow> None
               | Some (r, s2) \<Rightarrow> Some (Returned Undefined, s2)))
       \<and> (\<forall>h u q' s s1 p2 res rej.
            call_val (call (Suc n)) h Undefined [u] s = Some (Returned (PromiseRef q'), s1)
          \<and> q' \<noteq> p2 \<longrightarrow>
            handle (call (Suc n)) h u p2 res rej s =
              (case promise_then (PromiseRef q')
                      (Fun (OnInnerFulfilled (length (flags s1)) p2 res rej))
                      (Fun (OnInnerRejected (length (flags s1)) rej))
                      (s1\<lparr>flags := flags s1 @ [False]\<rparr>) of
                 None \<Rightarrow> None
               | Some (r, s2) \<Rightarrow> Some (Returned Undefined, s2)))
       \<and> (state (promises st ! p) \<noteq> PENDING \<longrightarrow>
            (\<exists>st1 st2.
               promise_then (PromiseRef p) (Fun (User [Return (Const x)])) (Fun (User [Return (Const x)])) st = Some (PromiseRef (length (promises st)), st1)
             \<and> state (promises st1 ! length (promises st)) = PENDING
             \<and> event_loop (Suc (Suc (Suc (2 * length bs + n)))) 2 st1 = Some (Returned Undefined, st2)
             \<and> tasks st2 = []
             \<and> state (promises st2 ! length (promises st)) = RESOLVED
             \<and> value (promises st2 ! length (promises st)) = v
             \<and> value (promises st2 ! length (promises st)) \<noteq> x))
       \<and> (state (promises st ! p) = PENDING \<longrightarrow>
            (\<exists>st1 st2 st3.
               promise_then (PromiseRef p) (Fun (User [Return (Const x)])) (Fun (User [Return (Const x)])) st = Some (PromiseRef (length (promises st)), st1)
             \<and> call (Suc n) (ResolveCap p) this [w] st1 = Some (Returned Undefined, st2)
             \<and> event_loop (Suc (Suc (Suc (2 * length bs + n)))) 2 st2 = Some (Returned Undefined, st3)
             \<and> tasks st3 = []
             \<and> state (promises st3 ! length (promises st)) = RESOLVED
             \<and> value (promises st3 ! length (promises st)) = v
             \<and> value (promises st3 ! length (promises st)) \<noteq> x))
       \<and> (state (promises st ! p) = PENDING \<longrightarrow>
            (\<exists>st1 st2 st3.
               promise_then (PromiseRef p) (Fun (User [Return (Const x)])) (Fun (User [Return (Const x)])) st = Some (PromiseRef (length (promises st)), st1)
             \<and> call (Suc n) (RejectCap p) this [w] st1 = Some (Returned Undefined, st2)
             \<and> event_loop (Suc (Suc (Suc (2 * length bs + n)))) 2 st2 = Some (Returned Undefined, st3)
             \<and> tasks st3 = []
             \<and> state (promises st3 ! length (promises st)) = RESOLVED
             \<and> value (promises st3 ! length (promises st)) = v
             \<and> value (promises st3 ! length (promises st)) \<noteq> x))
       \<and> (state (promises st ! p) \<noteq> PENDING \<longrightarrow>
            (\<exists>st1 st2.
               promise_then (PromiseRef p) (Fun (User [Return (Const (PromiseRef q))])) (Fun (User [Return (Const (PromiseRef q))])) st = Some (PromiseRef (length (promises st)), st1)
             \<and> state (promises st1 ! length (promises st)) = PENDING
             \<and> event_loop (Suc (Suc n)) 4 st1 = Some (Returned Undefined, st2)
             \<and> tasks st2 = []
             \<and> state (promises st2 ! length (promises st)) = RESOLVED
             \<and> value (promises st2 ! length (promises st)) = v))
       \<and> (state (promises st ! p) = PENDING \<longrightarrow>
            (\<exists>st1 st2 st3.
               promise_then (PromiseRef p) (Fun (User [Return (Const (PromiseRef q))])) (Fun (User [Return (Const (PromiseRef q))])) st = Some (PromiseRef (length (promises st)), st1)
             \<and> call (Suc n) (ResolveCap p) this [w] st1 = Some (Returned Undefined, st2)
             \<and> event_loop (Suc (Suc n)) 4 st2 = Some (Returned Undefined, st3)
             \<and> tasks st3 = []
             \<and> state (promises st3 ! length (promises st)) = RESOLVED
             \<and> value (promises st3 ! length (promises st)) = v))
       \<and> (state (promises st ! p) = PENDING \<longrightarrow>
            (\<exists>st1 st2 st3.
               promise_then (PromiseRef p) (Fun (User [Return (Const (PromiseRef q))])) (Fun (User [Return (Const (PromiseRef q))])) st = Some (PromiseRef (length (promises st)), st1)
             \<and> call (Suc n) (RejectCap p) this [w] st1 = Some (Returned Undefined, st2)
             \<and> event_loop (Suc (Suc n)) 4 st2 = Some (Returned Undefined, st3)
             \<and> tasks st3 = []
             \<and> state (promises st3 ! length (promises st)) = RESOLVED
             \<and> value (promises st3 ! length (promises st)) = v))"
proof -
  define d where "d = 2 * length bs + n"
  note hx = handle_adopts_user[OF pl fin th ob, of n, folded d_def]
  have vx: "v \<noteq> x" using pl ob by auto
  have qN: "q \<noteq> length (promises st)" using q(1) by simp
  note hq = handle_adopts_library[OF call_user_return_const]
  have G: "(\<forall>h u y z s s1 p2 res rej cs fi e'.
            call_val (call (Suc (Suc n))) h Undefined [u] s = Some (Returned y, s1)
          \<and> get_then y = Returned (Fun (User (invocations ((0, z) # cs) @ fi)))
          \<and> (isObject y \<or> isFunction y) \<and> (fi = [] \<or> fi = [Throw (Const e')]) \<longrightarrow>
            handle (call (Suc (Suc n))) h u p2 res rej s =
              (case resolvePromise (call n) p2 z res rej (s1\<lparr>flags := flags s1 @ [True]\<rparr>) of
                 None \<Rightarrow> None
               | Some (r, s2) \<Rightarrow> Some (Returned Undefined, s2)))"
    by (intro allI impI) (elim conjE, rule handle_adopts_first_call)
  have Gp: "(\<forall>h u q' s s1 p2 res rej.
            call_val (call (Suc n)) h Undefined [u] s = Some (Returned (PromiseRef q'), s1)
          \<and> q' \<noteq> p2 \<longrightarrow>
            handle (call (Suc n)) h u p2 res rej s =
              (case promise_then (PromiseRef q')
                      (Fun (OnInnerFulfilled (length (flags s1)) p2 res rej))
                      (Fun (OnInnerRejected (length (flags s1)) rej))
                      (s1\<lparr>flags := flags s1 @ [False]\<rparr>) of
                 None \<Rightarrow> None
               | Some (r, s2) \<Rightarrow> Some (Returned Undefined, s2)))"
    by (intro allI impI) (elim conjE, rule handle_adopts_library)
  have Sxs': "(state (promises st ! p) \<noteq> PENDING \<longrightarrow>
            (\<exists>st1 st2.
               promise_then (PromiseRef p) (Fun (User [Return (Const x)])) (Fun (User [Return (Const x)])) st = Some (PromiseRef (length (promises st)), st1)
             \<and> state (promises st1 ! length (promises st)) = PENDING
             \<and> event_loop (Suc (Suc (Suc d))) 2 st1 = Some (Returned Undefined, st2)
             \<and> tasks st2 = []
             \<and> state (promises st2 ! length (promises st)) = RESOLVED
             \<and> value (promises st2 ! length (promises st)) = v
             \<and> value (promises st2 ! length (promises st)) \<noteq> x))"
  proof
    assume np: "state (promises st ! p) \<noteq> PENDING"
    show "(\<exists>st1 st2.
               promise_then (PromiseRef p) (Fun (User [Return (Const x)])) (Fun (User [Return (Const x)])) st = Some (PromiseRef (length (promises st)), st1)
             \<and> state (promises st1 ! length (promises st)) = PENDING
             \<and> event_loop (Suc (Suc (Suc d))) 2 st1 = Some (Returned Undefined, st2)
             \<and> tasks st2 = []
             \<and> state (promises st2 ! length (promises st)) = RESOLVED
             \<and> value (promises st2 ! length (promises st)) = v
             \<and> value (promises st2 ! length (promises st)) \<noteq> x)"
    proof (cases "state (promises st ! p)")
      case PENDING
      with np show ?thesis by simp
    next
      case RESOLVED
      with e p vx show ?thesis
        by (simp add: adopt_simps numeral_2_eq_2 hx del: call.simps)
    next
      case REJECTED
      with e p vx show ?thesis
        by (simp add: adopt_simps numeral_2_eq_2 hx del: call.simps)
    qed
  qed
  have Sxr': "(state (promises st ! p) = PENDING \<longrightarrow>
            (\<exists>st1 st2 st3.
               promise_then (PromiseRef p) (Fun (User [Return (Const x)])) (Fun (User [Return (Const x)])) st = Some (PromiseRef (length (promises st)), st1)
             \<and> call (Suc n) (ResolveCap p) this [w] st1 = Some (Returned Undefined, st2)
             \<and> event_loop (Suc (Suc (Suc d))) 2 st2 = Some (Returned Undefined, st3)
             \<and> tasks st3 = []
             \<and> state (promises st3 ! length (promises st)) = RESOLVED
             \<and> value (promises st3 ! length (promises st)) = v
             \<and> value (promises st3 ! length (promises st)) \<noteq> x))"
    using e p em vx
    by (auto simp add: adopt_simps numeral_2_eq_2 hx simp del: call.simps)
  have Sxj': "(state (promises st ! p) = PENDING \<longrightarrow>
            (\<exists>st1 st2 st3.
               promise_then (PromiseRef p) (Fun (User [Return (Const x)])) (Fun (User [Return (Const x)])) st = Some (PromiseRef (length (promises st)), st1)
             \<and> call (Suc n) (RejectCap p) this [w] st1 = Some (Returned Undefined, st2)
             \<and> event_loop (Suc (Suc (Suc d))) 2 st2 = Some (Returned Undefined, st3)
             \<and> tasks st3 = []
             \<and> state (promises st3 ! length (promises st)) = RESOLVED
             \<and> value (promises st3 ! length (promises st)) = v
             \<and> value (promises st3 ! length (promises st)) \<noteq> x))"
    using e p em vx
    by (auto simp add: adopt_simps numeral_2_eq_2 hx simp del: call.simps)
  have Sxs: "(state (promises st ! p) \<noteq> PENDING \<longrightarrow>
            (\<exists>st1 st2.
               promise_then (PromiseRef p) (Fun (User [Return (Const x)])) (Fun (User [Return (Const x)])) st = Some (PromiseRef (length (promises st)), st1)
             \<and> state (promises st1 ! length (promises st)) = PENDING
             \<and> event_loop (Suc (Suc (Suc (2 * length bs + n)))) 2 st1 = Some (Returned Undefined, st2)
             \<and> tasks st2 = []
             \<and> state (promises st2 ! length (promises st)) = RESOLVED
             \<and> value (promises st2 ! length (promises st)) = v
             \<and> value (promises st2 ! length (promises st)) \<noteq> x))"
    using Sxs' unfolding d_def .
  have Sxr: "(state (promises st ! p) = PENDING \<longrightarrow>
            (\<exists>st1 st2 st3.
               promise_then (PromiseRef p) (Fun (User [Return (Const x)])) (Fun (User [Return (Const x)])) st = Some (PromiseRef (length (promises st)), st1)
             \<and> call (Suc n) (ResolveCap p) this [w] st1 = Some (Returned Undefined, st2)
             \<and> event_loop (Suc (Suc (Suc (2 * length bs + n)))) 2 st2 = Some (Returned Undefined, st3)
             \<and> tasks st3 = []
             \<and> state (promises st3 ! length (promises st)) = RESOLVED
             \<and> value (promises st3 ! length (promises st)) = v
             \<and> value (promises st3 ! length (promises st)) \<noteq> x))"
    using Sxr' unfolding d_def .
  have Sxj: "(state (promises st ! p) = PENDING \<longrightarrow>
            (\<exists>st1 st2 st3.
               promise_then (PromiseRef p) (Fun (User [Return (Const x)])) (Fun (User [Return (Const x)])) st = Some (PromiseRef (length (promises st)), st1)
             \<and> call (Suc n) (RejectCap p) this [w] st1 = Some (Returned Undefined, st2)
             \<and> event_loop (Suc (Suc (Suc (2 * length bs + n)))) 2 st2 = Some (Returned Undefined, st3)
             \<and> tasks st3 = []
             \<and> state (promises st3 ! length (promises st)) = RESOLVED
             \<and> value (promises st3 ! length (promises st)) = v
             \<and> value (promises st3 ! length (promises st)) \<noteq> x))"
    using Sxj' unfolding d_def .
  have four: "(4::nat) = Suc (Suc (Suc (Suc 0)))" by simp
  have Sqs: "(state (promises st ! p) \<noteq> PENDING \<longrightarrow>
            (\<exists>st1 st2.
               promise_then (PromiseRef p) (Fun (User [Return (Const (PromiseRef q))])) (Fun (User [Return (Const (PromiseRef q))])) st = Some (PromiseRef (length (promises st)), st1)
             \<and> state (promises st1 ! length (promises st)) = PENDING
             \<and> event_loop (Suc (Suc n)) 4 st1 = Some (Returned Undefined, st2)
             \<and> tasks st2 = []
             \<and> state (promises st2 ! length (promises st)) = RESOLVED
             \<and> value (promises st2 ! length (promises st)) = v))"
  proof
    assume np: "state (promises st ! p) \<noteq> PENDING"
    show "(\<exists>st1 st2.
               promise_then (PromiseRef p) (Fun (User [Return (Const (PromiseRef q))])) (Fun (User [Return (Const (PromiseRef q))])) st = Some (PromiseRef (length (promises st)), st1)
             \<and> state (promises st1 ! length (promises st)) = PENDING
             \<and> event_loop (Suc (Suc n)) 4 st1 = Some (Returned Undefined, st2)
             \<and> tasks st2 = []
             \<and> state (promises st2 ! length (promises st)) = RESOLVED
             \<and> value (promises st2 ! length (promises st)) = v)"
    proof (cases "state (promises st ! p)")
      case PENDING
      with np show ?thesis by simp
    next
      case RESOLVED
      with e p q qN pl show ?thesis
        by (simp add: adopt_simps four hq adoption_callback_fulfilled del: call.simps)
    next
      case REJECTED
      with e p q qN pl show ?thesis
        by (simp add: adopt_simps four hq adoption_callback_fulfilled del: call.simps)
    qed
  qed
  have Sqr: "(state (promises st ! p) = PENDING \<longrightarrow>
            (\<exists>st1 st2 st3.
               promise_then (PromiseRef p) (Fun (User [Return (Const (PromiseRef q))])) (Fun (User [Return (Const (PromiseRef q))])) st = Some (PromiseRef (length (promises st)), st1)
             \<and> call (Suc n) (ResolveCap p) this [w] st1 = Some (Returned Undefined, st2)
             \<and> event_loop (Suc (Suc n)) 4 st2 = Some (Returned Undefined, st3)
             \<and> tasks st3 = []
             \<and> state (promises st3 ! length (promises st)) = RESOLVED
             \<and> value (promises st3 ! length (promises st)) = v))"
  proof
    assume pe: "state (promises st ! p) = PENDING"
    then have qp: "q \<noteq> p" using q(2) by auto
    from pe em e p q qN qp pl show "(\<exists>st1 st2 st3.
               promise_then (PromiseRef p) (Fun (User [Return (Const (PromiseRef q))])) (Fun (User [Return (Const (PromiseRef q))])) st = Some (PromiseRef (length (promises st)), st1)
             \<and> call (Suc n) (ResolveCap p) this [w] st1 = Some (Returned Undefined, st2)
             \<and> event_loop (Suc (Suc n)) 4 st2 = Some (Returned Undefined, st3)
             \<and> tasks st3 = []
             \<and> state (promises st3 ! length (promises st)) = RESOLVED
             \<and> value (promises st3 ! length (promises st)) = v)"
      by (simp add: adopt_simps four hq adoption_callback_fulfilled del: call.simps)
  qed
  have Sqj: "(state (promises st ! p) = PENDING \<longrightarrow>
            (\<exists>st1 st2 st3.
               promise_then (PromiseRef p) (Fun (User [Return (Const (PromiseRef q))])) (Fun (User [Return (Const (PromiseRef q))])) st = Some (PromiseRef (length (promises st)), st1)
             \<and> call (Suc n) (RejectCap p) this [w] st1 = Some (Returned Undefined, st2)
             \<and> event_loop (Suc (Suc n)) 4 st2 = Some (Returned Undefined, st3)
             \<and> tasks st3 = []
             \<and> state (promises st3 ! length (promises st)) = RESOLVED
             \<and> value (promises st3 ! length (promises st)) = v))"
  proof
    assume pe: "state (promises st ! p) = PENDING"
    then have qp: "q \<noteq> p" using q(2) by auto
    from pe em e p q qN qp pl show "(\<exists>st1 st2 st3.
               promise_then (PromiseRef p) (Fun (User [Return (Const (PromiseRef q))])) (Fun (User [Return (Const (PromiseRef q))])) st = Some (PromiseRef (length (promises st)), st1)
             \<and> call (Suc n) (RejectCap p) this [w] st1 = Some (Returned Undefined, st2)
             \<and> event_loop (Suc (Suc n)) 4 st2 = Some (Returned Undefined, st3)
             \<and> tasks st3 = []
             \<and> state (promises st3 ! length (promises st)) = RESOLVED
             \<and> value (promises st3 ! length (promises st)) = v)"
      by (simp add: adopt_simps four hq adoption_callback_fulfilled del: call.simps)
  qed
  from G Gp Sxs Sxr Sxj Sqs Sqr Sqj show ?thesis by (intro conjI)
qed

theorem then_adopts_thenable_witness:
  "tasks (fulfilled_machine (Num 42)) = [] \<and> 0 < length (promises (fulfilled_machine (Num 42)))
   \<and> state (promises (fulfilled_machine (Num 42)) ! 0) = RESOLVED
   \<and> value (promises (fulfilled_machine (Num 42)) ! 0) = Num 42
   \<and> \<not> isObject (Num 42) \<and> \<not> isFunction (Num 42)
   \<and> get_then (function_fulfilling (Num 42)) =
        Returned (Fun (User (invocations ((0, nested_thenable [] (Num 42)) # []) @ [])))
   \<and> isFunction (function_fulfilling (Num 42))
   \<and> (\<exists>st1 st2.
        promise_then (PromiseRef 0) (Fun (User [Return (Const (function_fulfilling (Num 42)))]))
          (Fun (User [Return (Const (function_fulfilling (Num 42)))])) (fulfilled_machine (Num 42)) =
          Some (PromiseRef 1, st1)
      \<and> event_loop 3 2 st1 = Some (Returned Undefined, st2)
      \<and> state (promises st2 ! 1) = RESOLVED
      \<and> value (promises st2 ! 1) = Num 42
      \<and> value (promises st2 ! 1) \<noteq> function_fulfilling (Num 42))
   \<and> (\<exists>st1 st2.
        promise_then (PromiseRef 0) (Fun (User [Return (Const (PromiseRef 0))]))
          (Fun (User [Return (Const (PromiseRef 0))])) (fulfilled_machine (Num 42)) =
          Some (PromiseRef 1, st1)
      \<and> event_loop 2 4 st1 = Some (Returned Undefined, st2)
      \<and> state (promises st2 ! 1) = RESOLVED
      \<and> value (promises st2 ! 1) = Num 42)"
proof -
  let ?M = "fulfilled_machine (Num 42)"
  have h: "tasks ?M = []" "0 < length (promises ?M)"
    "state (promises ?M ! 0) = PENDING \<longrightarrow>
       resolvedCallbacks (promises ?M ! 0) = [] \<and> rejectedCallbacks (promises ?M ! 0) = []"
    "\<not> isObject (Num 42)" "\<not> isFunction (Num 42)"
    "([]::stmt list) = [] \<or> [] = [Throw (Const Undefined)]"
    "get_then (function_fulfilling (Num 42)) =
        Returned (Fun (User (invocations ((0, nested_thenable [] (Num 42)) # []) @ [])))"
    "isObject (function_fulfilling (Num 42)) \<or> isFunction (function_fulfilling (Num 42))"
    "0 < length (promises ?M)" "state (promises ?M ! 0) = RESOLVED" "value (promises ?M ! 0) = Num 42"
    by (simp_all add: fulfilled_machine_def function_fulfilling_def invocations_def)
  have np: "state (promises ?M ! 0) \<noteq> PENDING" by (simp add: fulfilled_machine_def)
  have l: "length (promises ?M) = 1" by (simp add: fulfilled_machine_def)
  have n: "(3::nat) = Suc (Suc (Suc (2 * length ([]::bool list) + 0)))" "(2::nat) = Suc (Suc 0)" by simp_all
  note t = then_adopts_thenable [OF h, where n = 0 and this = Undefined and w = Undefined]
  have a: "\<exists>st1 st2.
        promise_then (PromiseRef 0) (Fun (User [Return (Const (function_fulfilling (Num 42)))]))
          (Fun (User [Return (Const (function_fulfilling (Num 42)))])) ?M = Some (PromiseRef 1, st1)
      \<and> event_loop 3 2 st1 = Some (Returned Undefined, st2)
      \<and> state (promises st2 ! 1) = RESOLVED
      \<and> value (promises st2 ! 1) = Num 42
      \<and> value (promises st2 ! 1) \<noteq> function_fulfilling (Num 42)"
    using t[THEN conjunct2, THEN conjunct2, THEN conjunct1, rule_format, OF np]
    unfolding l n(1) by blast
  have b: "\<exists>st1 st2.
        promise_then (PromiseRef 0) (Fun (User [Return (Const (PromiseRef 0))]))
          (Fun (User [Return (Const (PromiseRef 0))])) ?M = Some (PromiseRef 1, st1)
      \<and> event_loop 2 4 st1 = Some (Returned Undefined, st2)
      \<and> state (promises st2 ! 1) = RESOLVED
      \<and> value (promises st2 ! 1) = Num 42"
    using t[THEN conjunct2, THEN conjunct2, THEN conjunct2, THEN conjunct2, THEN conjunct2,
        THEN conjunct1, rule_format, OF np]
    unfolding l n(2) by blast
  from h(1,2,4,5,7,10,11) a b show ?thesis by (simp add: function_fulfilling_def del: call.simps)
qed

text \<open>
  C2 as stated fails: the \<^verbatim>\<open>resolve\<close> capability makes no cycle check. With
  \<^verbatim>\<open>d = Promise.deferred()\<close>, the call \<^verbatim>\<open>d.resolve(d.promise)\<close> fulfils the promise
  with itself.
\<close>

theorem resolve_capability_accepts_own_promise:
  "deferred empty_machine =
     Some (\<lparr>dfd_promise = PromiseRef 0, dfd_resolve = Fun (ResolveCap 0), dfd_reject = Fun (RejectCap 0)\<rparr>,
       empty_machine\<lparr>promises := [init_promise],
         dfds := [\<lparr>dfd_promise = PromiseRef 0, dfd_resolve = Fun (ResolveCap 0), dfd_reject = Fun (RejectCap 0)\<rparr>]\<rparr>)
   \<and> call_val (call 1) (Fun (ResolveCap 0)) Undefined [PromiseRef 0]
       (empty_machine\<lparr>promises := [init_promise],
         dfds := [\<lparr>dfd_promise = PromiseRef 0, dfd_resolve = Fun (ResolveCap 0), dfd_reject = Fun (RejectCap 0)\<rparr>]\<rparr>) =
     Some (Returned Undefined, empty_machine\<lparr>promises := [init_promise],
         dfds := [\<lparr>dfd_promise = PromiseRef 0, dfd_resolve = Fun (ResolveCap 0), dfd_reject = Fun (RejectCap 0)\<rparr>],
         tasks := [SettleResolved 0 (PromiseRef 0)]\<rparr>)
   \<and> event_loop 1 1 (empty_machine\<lparr>promises := [init_promise],
         dfds := [\<lparr>dfd_promise = PromiseRef 0, dfd_resolve = Fun (ResolveCap 0), dfd_reject = Fun (RejectCap 0)\<rparr>],
         tasks := [SettleResolved 0 (PromiseRef 0)]\<rparr>) =
     Some (Returned Undefined, empty_machine\<lparr>
         promises := [init_promise\<lparr>state := RESOLVED, value := PromiseRef 0\<rparr>],
         dfds := [\<lparr>dfd_promise = PromiseRef 0, dfd_resolve = Fun (ResolveCap 0), dfd_reject = Fun (RejectCap 0)\<rparr>]\<rparr>)
   \<and> state (init_promise\<lparr>state := RESOLVED, value := PromiseRef 0\<rparr>) \<noteq> REJECTED"
  by (simp add: deferred_def new_Promise_def call_val_def call_step_def
      empty_machine_def arg_def resolve_cap_def nextTick_def init_promise_def settle_resolved_def
      field_state_def Let_def)

text \<open>
  C2, amended. The cycle check is the first step of \<^verbatim>\<open>resolvePromise\<close>: whichever closure
  of \<^verbatim>\<open>then\<close> runs and whatever the handler is, when the handler returns the very promise
  that this call of \<^verbatim>\<open>then\<close> returned, the closure calls \<^verbatim>\<open>reject\<close> of that promise with
  the cycle \<^verbatim>\<open>TypeError\<close>. For a parent that is fulfilled, rejected, or pending and then
  settled either way, the promise ends rejected with that error; it is neither fulfilled
  nor left pending.
\<close>

theorem then_rejects_self_resolution:
  assumes "tasks st = []" and "p < length (promises st)"
    and "state (promises st ! p) = PENDING \<longrightarrow>
           resolvedCallbacks (promises st ! p) = [] \<and> rejectedCallbacks (promises st ! p) = []"
  shows "(\<forall>h u s s1 p2 res.
            call_val (call (Suc n)) h Undefined [u] s = Some (Returned (PromiseRef p2), s1) \<longrightarrow>
            handle (call (Suc n)) h u p2 res (Fun (RejectCap p2)) s =
              Some (Returned Undefined, s1\<lparr>tasks := tasks s1 @ [SettleRejected p2 cycle_error]\<rparr>))
       \<and> (state (promises st ! p) \<noteq> PENDING \<longrightarrow>
            (\<exists>st1 st2.
               promise_then (PromiseRef p) (Fun (User [Return (Const (PromiseRef (length (promises st))))]))
                 (Fun (User [Return (Const (PromiseRef (length (promises st))))])) st =
                 Some (PromiseRef (length (promises st)), st1)
             \<and> state (promises st1 ! length (promises st)) = PENDING
             \<and> event_loop (Suc n) 2 st1 = Some (Returned Undefined, st2)
             \<and> tasks st2 = []
             \<and> state (promises st2 ! length (promises st)) = REJECTED
             \<and> reason (promises st2 ! length (promises st)) = cycle_error
             \<and> value (promises st2 ! length (promises st)) = Undefined))
       \<and> (state (promises st ! p) = PENDING \<longrightarrow>
            (\<exists>st1 st2 st3.
               promise_then (PromiseRef p) (Fun (User [Return (Const (PromiseRef (length (promises st))))]))
                 (Fun (User [Return (Const (PromiseRef (length (promises st))))])) st =
                 Some (PromiseRef (length (promises st)), st1)
             \<and> call (Suc n) (ResolveCap p) this [v] st1 = Some (Returned Undefined, st2)
             \<and> event_loop (Suc n) 2 st2 = Some (Returned Undefined, st3)
             \<and> tasks st3 = []
             \<and> state (promises st3 ! length (promises st)) = REJECTED
             \<and> reason (promises st3 ! length (promises st)) = cycle_error
             \<and> value (promises st3 ! length (promises st)) = Undefined)
          \<and> (\<exists>st1 st2 st3.
               promise_then (PromiseRef p) (Fun (User [Return (Const (PromiseRef (length (promises st))))]))
                 (Fun (User [Return (Const (PromiseRef (length (promises st))))])) st =
                 Some (PromiseRef (length (promises st)), st1)
             \<and> call (Suc n) (RejectCap p) this [v] st1 = Some (Returned Undefined, st2)
             \<and> event_loop (Suc n) 2 st2 = Some (Returned Undefined, st3)
             \<and> tasks st3 = []
             \<and> state (promises st3 ! length (promises st)) = REJECTED
             \<and> reason (promises st3 ! length (promises st)) = cycle_error
             \<and> value (promises st3 ! length (promises st)) = Undefined))"
proof (intro conjI impI allI)
  fix h u s s1 p2 res
  assume "call_val (call (Suc n)) h Undefined [u] s = Some (Returned (PromiseRef p2), s1)"
  then show "handle (call (Suc n)) h u p2 res (Fun (RejectCap p2)) s =
              Some (Returned Undefined, s1\<lparr>tasks := tasks s1 @ [SettleRejected p2 cycle_error]\<rparr>)"
    by (rule handle_returns_self)
next
  assume np: "state (promises st ! p) \<noteq> PENDING"
  show "\<exists>st1 st2.
               promise_then (PromiseRef p) (Fun (User [Return (Const (PromiseRef (length (promises st))))]))
                 (Fun (User [Return (Const (PromiseRef (length (promises st))))])) st =
                 Some (PromiseRef (length (promises st)), st1)
             \<and> state (promises st1 ! length (promises st)) = PENDING
             \<and> event_loop (Suc n) 2 st1 = Some (Returned Undefined, st2)
             \<and> tasks st2 = []
             \<and> state (promises st2 ! length (promises st)) = REJECTED
             \<and> reason (promises st2 ! length (promises st)) = cycle_error
             \<and> value (promises st2 ! length (promises st)) = Undefined"
  proof (cases "state (promises st ! p)")
    case PENDING
    with np show ?thesis by simp
  next
    case RESOLVED
    with assms(1,2) show ?thesis
      by (simp add: parent_simps numeral_2_eq_2 handle_returns_self del: call.simps)
  next
    case REJECTED
    with assms(1,2) show ?thesis
      by (simp add: parent_simps numeral_2_eq_2 handle_returns_self del: call.simps)
  qed
next
  assume pe: "state (promises st ! p) = PENDING"
  with assms show "\<exists>st1 st2 st3.
               promise_then (PromiseRef p) (Fun (User [Return (Const (PromiseRef (length (promises st))))]))
                 (Fun (User [Return (Const (PromiseRef (length (promises st))))])) st =
                 Some (PromiseRef (length (promises st)), st1)
             \<and> call (Suc n) (ResolveCap p) this [v] st1 = Some (Returned Undefined, st2)
             \<and> event_loop (Suc n) 2 st2 = Some (Returned Undefined, st3)
             \<and> tasks st3 = []
             \<and> state (promises st3 ! length (promises st)) = REJECTED
             \<and> reason (promises st3 ! length (promises st)) = cycle_error
             \<and> value (promises st3 ! length (promises st)) = Undefined"
    by (simp add: parent_simps numeral_2_eq_2 handle_returns_self del: call.simps)
next
  assume pe: "state (promises st ! p) = PENDING"
  with assms show "\<exists>st1 st2 st3.
               promise_then (PromiseRef p) (Fun (User [Return (Const (PromiseRef (length (promises st))))]))
                 (Fun (User [Return (Const (PromiseRef (length (promises st))))])) st =
                 Some (PromiseRef (length (promises st)), st1)
             \<and> call (Suc n) (RejectCap p) this [v] st1 = Some (Returned Undefined, st2)
             \<and> event_loop (Suc n) 2 st2 = Some (Returned Undefined, st3)
             \<and> tasks st3 = []
             \<and> state (promises st3 ! length (promises st)) = REJECTED
             \<and> reason (promises st3 ! length (promises st)) = cycle_error
             \<and> value (promises st3 ! length (promises st)) = Undefined"
    by (simp add: parent_simps numeral_2_eq_2 handle_returns_self del: call.simps)
qed

theorem then_rejects_self_resolution_witness:
  "tasks settled_machine = [] \<and> 0 < length (promises settled_machine)
   \<and> state (promises settled_machine ! 0) = RESOLVED
   \<and> (\<exists>st1 st2.
      promise_then (PromiseRef 0) (Fun (User [Return (Const (PromiseRef 1))]))
        (Fun (User [Return (Const (PromiseRef 1))])) settled_machine = Some (PromiseRef 1, st1)
    \<and> event_loop 1 2 st1 = Some (Returned Undefined, st2)
    \<and> state (promises st2 ! 1) = REJECTED
    \<and> reason (promises st2 ! 1) = cycle_error)
   \<and> tasks pending_machine = [] \<and> 0 < length (promises pending_machine)
   \<and> state (promises pending_machine ! 0) = PENDING
   \<and> resolvedCallbacks (promises pending_machine ! 0) = []
   \<and> rejectedCallbacks (promises pending_machine ! 0) = []
   \<and> (\<exists>st1 st2 st3.
      promise_then (PromiseRef 0) (Fun (User [Return (Const (PromiseRef 1))]))
        (Fun (User [Return (Const (PromiseRef 1))])) pending_machine = Some (PromiseRef 1, st1)
    \<and> call 1 (RejectCap 0) Undefined [Num 7] st1 = Some (Returned Undefined, st2)
    \<and> event_loop 1 2 st2 = Some (Returned Undefined, st3)
    \<and> state (promises st3 ! 1) = REJECTED
    \<and> reason (promises st3 ! 1) = cycle_error)"
proof -
  have h: "tasks settled_machine = []" "0 < length (promises settled_machine)"
    "state (promises settled_machine ! 0) = PENDING \<longrightarrow>
       resolvedCallbacks (promises settled_machine ! 0) = [] \<and>
       rejectedCallbacks (promises settled_machine ! 0) = []"
    by (simp_all add: settled_machine_def)
  have g: "tasks pending_machine = []" "0 < length (promises pending_machine)"
    "state (promises pending_machine ! 0) = PENDING \<longrightarrow>
       resolvedCallbacks (promises pending_machine ! 0) = [] \<and>
       rejectedCallbacks (promises pending_machine ! 0) = []"
    by (simp_all add: pending_machine_def init_promise_def)
  have s: "state (promises settled_machine ! 0) = RESOLVED" "state (promises settled_machine ! 0) \<noteq> PENDING"
    by (simp_all add: settled_machine_def)
  have q: "state (promises pending_machine ! 0) = PENDING"
    "resolvedCallbacks (promises pending_machine ! 0) = []"
    "rejectedCallbacks (promises pending_machine ! 0) = []"
    by (simp_all add: pending_machine_def init_promise_def)
  have l: "length (promises settled_machine) = 1" "length (promises pending_machine) = 1"
    by (simp_all add: settled_machine_def pending_machine_def)
  have n: "(1::nat) = Suc 0" by simp
  have a: "\<exists>st1 st2.
      promise_then (PromiseRef 0) (Fun (User [Return (Const (PromiseRef 1))]))
        (Fun (User [Return (Const (PromiseRef 1))])) settled_machine = Some (PromiseRef 1, st1)
    \<and> event_loop 1 2 st1 = Some (Returned Undefined, st2)
    \<and> state (promises st2 ! 1) = REJECTED
    \<and> reason (promises st2 ! 1) = cycle_error"
    using then_rejects_self_resolution [OF h, where n = 0, THEN conjunct2, THEN conjunct1, rule_format, OF s(2)]
    unfolding l by (simp del: call.simps) blast
  have b: "\<exists>st1 st2 st3.
      promise_then (PromiseRef 0) (Fun (User [Return (Const (PromiseRef 1))]))
        (Fun (User [Return (Const (PromiseRef 1))])) pending_machine = Some (PromiseRef 1, st1)
    \<and> call 1 (RejectCap 0) Undefined [Num 7] st1 = Some (Returned Undefined, st2)
    \<and> event_loop 1 2 st2 = Some (Returned Undefined, st3)
    \<and> state (promises st3 ! 1) = REJECTED
    \<and> reason (promises st3 ! 1) = cycle_error"
    using then_rejects_self_resolution [OF g, where n = 0 and this = Undefined and v = "Num 7", THEN conjunct2, THEN conjunct2,
        rule_format, OF q(1), THEN conjunct2]
    unfolding l by (simp del: call.simps) blast
  from h(1,2) g(1,2) s(1) q a b show ?thesis by blast
qed

text \<open>
  C3. Once a promise has left \<^verbatim>\<open>PENDING\<close>, a call of \<^verbatim>\<open>resolve\<close> or \<^verbatim>\<open>reject\<close> only
  sets a timer, and that timer changes nothing when it fires. Whatever the program does
  afterwards, the state, value and reason of the promise stay as they are; and in every
  machine a program reaches from the empty one, each promise has a value or a reason but
  never both.
\<close>

theorem settled_promise_never_changes:
  assumes "p < length (promises st)" and "state (promises st ! p) \<noteq> PENDING"
  shows "call (Suc n) (ResolveCap p) this [v] st =
           Some (Returned Undefined, st\<lparr>tasks := tasks st @ [SettleResolved p v]\<rparr>)
       \<and> call (Suc n) (RejectCap p) this [v] st =
           Some (Returned Undefined, st\<lparr>tasks := tasks st @ [SettleRejected p v]\<rparr>)
       \<and> exec_task c (SettleResolved p v) st = Some (Returned Undefined, st)
       \<and> exec_task c (SettleRejected p v) st = Some (Returned Undefined, st)
       \<and> (\<forall>st'. runs_to st st' \<longrightarrow> same_outcome p st st')
       \<and> (\<forall>m. runs_to empty_machine m \<longrightarrow>
            list_all populated_ok (promises m) \<and>
            (\<forall>pr \<in> set (promises m). value pr = Undefined \<or> reason pr = Undefined))"
proof -
  have 1: "call (Suc n) (ResolveCap p) this [v] st =
           Some (Returned Undefined, st\<lparr>tasks := tasks st @ [SettleResolved p v]\<rparr>)"
    by (simp add: call_step_def resolve_cap_def nextTick_def arg_def)
  have 2: "call (Suc n) (RejectCap p) this [v] st =
           Some (Returned Undefined, st\<lparr>tasks := tasks st @ [SettleRejected p v]\<rparr>)"
    by (simp add: call_step_def reject_cap_def nextTick_def arg_def)
  have 3: "exec_task c (SettleResolved p v) st = Some (Returned Undefined, st)"
    using assms by (simp add: settle_resolved_def field_state_def)
  have 4: "exec_task c (SettleRejected p v) st = Some (Returned Undefined, st)"
    using assms by (simp add: settle_rejected_def field_state_def)
  have 5: "\<forall>st'. runs_to st st' \<longrightarrow> same_outcome p st st'"
    using stable_same_outcome[OF runs_to_stable assms] by blast
  have 6: "\<forall>m. runs_to empty_machine m \<longrightarrow>
            list_all populated_ok (promises m) \<and>
            (\<forall>pr \<in> set (promises m). value pr = Undefined \<or> reason pr = Undefined)"
  proof (intro allI impI)
    fix m
    assume "runs_to empty_machine m"
    then have "stable empty_machine m" by (rule runs_to_stable)
    moreover have "list_all populated_ok (promises empty_machine)" by (simp add: empty_machine_def)
    ultimately have b: "list_all populated_ok (promises m)" by (rule stable_populated)
    then have "\<forall>pr \<in> set (promises m). value pr = Undefined \<or> reason pr = Undefined"
      by (metis list_all_iff populated_ok_one)
    with b show "list_all populated_ok (promises m) \<and>
            (\<forall>pr \<in> set (promises m). value pr = Undefined \<or> reason pr = Undefined)" by simp
  qed
  from 1 2 3 4 5 6 show ?thesis by blast
qed

theorem settled_promise_never_changes_witness:
  "0 < length (promises settled_machine) \<and> state (promises settled_machine ! 0) \<noteq> PENDING
   \<and> call 1 (RejectCap 0) Undefined [Num 2] settled_machine =
       Some (Returned Undefined, settled_machine\<lparr>tasks := [SettleRejected 0 (Num 2)]\<rparr>)
   \<and> exec_task (call 1) (SettleRejected 0 (Num 2)) settled_machine = Some (Returned Undefined, settled_machine)
   \<and> event_loop 1 1 (settled_machine\<lparr>tasks := [SettleRejected 0 (Num 2)]\<rparr>) = Some (Returned Undefined, settled_machine)
   \<and> state (promises settled_machine ! 0) = RESOLVED \<and> value (promises settled_machine ! 0) = Num 1
   \<and> reason (promises settled_machine ! 0) = Undefined"
proof -
  have h1: "0 < length (promises settled_machine)" by (simp add: settled_machine_def)
  have h2: "state (promises settled_machine ! 0) \<noteq> PENDING" by (simp add: settled_machine_def)
  from settled_promise_never_changes [OF h1 h2, of 0 Undefined "Num 2" "call 1"]
  show ?thesis using h1 h2
    by (simp add: settled_machine_def)
qed

text \<open>
  C4. Any number of calls of \<^verbatim>\<open>then\<close> on a pending promise, whatever the handlers and
  whatever was registered before, append their closures to the two queues in the order of
  the calls, run nothing and set no timer. A call of \<^verbatim>\<open>resolve\<close> or \<^verbatim>\<open>reject\<close> returns
  with only a timer set. When that timer fires, the closures registered earlier run first
  and the new ones after them in registration order: \<^verbatim>\<open>forEach\<close> runs a queue front to
  back, and handlers that emit leave their emissions in registration order on the trace,
  from whatever machine the earlier closures leave. No call of \<^verbatim>\<open>then\<close> runs a handler.
\<close>

theorem handlers_run_in_registration_order:
  assumes "p < length (promises st)" and "state (promises st ! p) = PENDING"
  shows "(\<exists>st'. then_all (PromiseRef p) hs st = Some st'
        \<and> trace st' = trace st \<and> tasks st' = tasks st
        \<and> state (promises st' ! p) = PENDING
        \<and> resolvedCallbacks (promises st' ! p) =
            resolvedCallbacks (promises st ! p) @ queued_fulfilled (PromiseRef p) (length (promises st)) hs
        \<and> rejectedCallbacks (promises st' ! p) =
            rejectedCallbacks (promises st ! p) @ queued_rejected (PromiseRef p) (length (promises st)) hs
        \<and> call (Suc n) (ResolveCap p) this [v] st' =
            Some (Returned Undefined, st'\<lparr>tasks := tasks st' @ [SettleResolved p v]\<rparr>)
        \<and> call (Suc n) (RejectCap p) this [v] st' =
            Some (Returned Undefined, st'\<lparr>tasks := tasks st' @ [SettleRejected p v]\<rparr>)
        \<and> (\<forall>c. exec_task c (SettleResolved p v) st' =
              (case forEach c (resolvedCallbacks (promises st ! p))
                      (st'\<lparr>promises := (promises st')[p := (promises st' ! p)\<lparr>state := RESOLVED, value := v\<rparr>]\<rparr>) of
                 None \<Rightarrow> None
               | Some (Threw e, s) \<Rightarrow> Some (Threw e, s)
               | Some (Returned r, s) \<Rightarrow>
                   forEach c (queued_fulfilled (PromiseRef p) (length (promises st)) hs) s))
        \<and> (\<forall>c. exec_task c (SettleRejected p v) st' =
              (case forEach c (rejectedCallbacks (promises st ! p))
                      (st'\<lparr>promises := (promises st')[p := (promises st' ! p)\<lparr>state := REJECTED, reason := v\<rparr>]\<rparr>) of
                 None \<Rightarrow> None
               | Some (Threw e, s) \<Rightarrow> Some (Threw e, s)
               | Some (Returned r, s) \<Rightarrow>
                   forEach c (queued_rejected (PromiseRef p) (length (promises st)) hs) s)))
     \<and> (\<forall>c xs ys s. forEach c (xs @ ys) s =
           (case forEach c xs s of
              None \<Rightarrow> None
            | Some (Threw e, s') \<Rightarrow> Some (Threw e, s')
            | Some (Returned r, s') \<Rightarrow> forEach c ys s'))
     \<and> (\<forall>t m s. forEach (call (Suc n)) (queued_fulfilled t m (emitters es)) s =
           Some (Returned Undefined,
             s\<lparr>flags := flags s @ replicate (length es) False,
               tasks := tasks s @ map (\<lambda>i. SettleResolved i Undefined) [m..<m + length es],
               trace := trace s @ map fst es\<rparr>))
     \<and> (\<forall>t m s. forEach (call (Suc n)) (queued_rejected t m (emitters es)) s =
           Some (Returned Undefined,
             s\<lparr>flags := flags s @ replicate (length es) False,
               tasks := tasks s @ map (\<lambda>i. SettleResolved i Undefined) [m..<m + length es],
               trace := trace s @ map snd es\<rparr>))
     \<and> (tasks st = [] \<and> resolvedCallbacks (promises st ! p) = []
          \<and> rejectedCallbacks (promises st ! p) = [] \<longrightarrow>
          (\<exists>st1 st2 st3. then_all (PromiseRef p) (emitters es) st = Some st1
             \<and> call (Suc n) (ResolveCap p) this [v] st1 = Some (Returned Undefined, st2)
             \<and> trace st2 = trace st
             \<and> event_loop (Suc n) (Suc (length es)) st2 = Some (Returned Undefined, st3)
             \<and> tasks st3 = [] \<and> trace st3 = trace st @ map fst es)
        \<and> (\<exists>st1 st2 st3. then_all (PromiseRef p) (emitters es) st = Some st1
             \<and> call (Suc n) (RejectCap p) this [v] st1 = Some (Returned Undefined, st2)
             \<and> trace st2 = trace st
             \<and> event_loop (Suc n) (Suc (length es)) st2 = Some (Returned Undefined, st3)
             \<and> tasks st3 = [] \<and> trace st3 = trace st @ map snd es))
     \<and> (\<forall>t f g s r s'. promise_then t f g s = Some (r, s') \<longrightarrow> trace s' = trace s)"
proof -
  let ?N = "length (promises st)"
  let ?P = "\<lambda>hs. (promises st ! p)
        \<lparr>resolvedCallbacks := resolvedCallbacks (promises st ! p) @ queued_fulfilled (PromiseRef p) ?N hs,
         rejectedCallbacks := rejectedCallbacks (promises st ! p) @ queued_rejected (PromiseRef p) ?N hs\<rparr>"
  let ?st' = "\<lambda>hs. st\<lparr>promises := (promises st)[p := ?P hs] @ replicate (length hs) init_promise\<rparr>"
  have reg: "then_all (PromiseRef p) hs st = Some (?st' hs)" for hs
    by (rule then_all_pending[OF assms])
  have at_p: "promises (?st' hs) ! p = ?P hs" "p < length (promises (?st' hs))" for hs
    using assms(1) by (simp_all add: nth_upd_app_p)
  define st' where "st' = ?st' hs"
  have g0: "then_all (PromiseRef p) hs st = Some st'"
    unfolding st'_def by (rule reg)
  have g1: "trace st' = trace st" "tasks st' = tasks st"
    by (simp_all add: st'_def)
  have gp: "promises st' ! p = ?P hs" "p < length (promises st')"
    unfolding st'_def by (rule at_p)+
  have g2: "state (promises st' ! p) = PENDING"
    "resolvedCallbacks (promises st' ! p) =
            resolvedCallbacks (promises st ! p) @ queued_fulfilled (PromiseRef p) (length (promises st)) hs"
    "rejectedCallbacks (promises st' ! p) =
            rejectedCallbacks (promises st ! p) @ queued_rejected (PromiseRef p) (length (promises st)) hs"
    using assms(2) by (simp_all add: gp(1))
  have g3: "call (Suc n) (ResolveCap p) this [v] st' =
            Some (Returned Undefined, st'\<lparr>tasks := tasks st' @ [SettleResolved p v]\<rparr>)"
    "call (Suc n) (RejectCap p) this [v] st' =
            Some (Returned Undefined, st'\<lparr>tasks := tasks st' @ [SettleRejected p v]\<rparr>)"
    by (simp_all add: call_step_def resolve_cap_def reject_cap_def nextTick_def arg_def)
  have g4: "\<forall>c. exec_task c (SettleResolved p v) st' =
              (case forEach c (resolvedCallbacks (promises st ! p))
                      (st'\<lparr>promises := (promises st')[p := (promises st' ! p)\<lparr>state := RESOLVED, value := v\<rparr>]\<rparr>) of
                 None \<Rightarrow> None
               | Some (Threw e, s) \<Rightarrow> Some (Threw e, s)
               | Some (Returned r, s) \<Rightarrow>
                   forEach c (queued_fulfilled (PromiseRef p) (length (promises st)) hs) s)"
    using gp(2) g2(1) by (simp add: settle_resolved_def field_state_def g2(2) forEach_append del: forEach.simps)
  have g5: "\<forall>c. exec_task c (SettleRejected p v) st' =
              (case forEach c (rejectedCallbacks (promises st ! p))
                      (st'\<lparr>promises := (promises st')[p := (promises st' ! p)\<lparr>state := REJECTED, reason := v\<rparr>]\<rparr>) of
                 None \<Rightarrow> None
               | Some (Threw e, s) \<Rightarrow> Some (Threw e, s)
               | Some (Returned r, s) \<Rightarrow>
                   forEach c (queued_rejected (PromiseRef p) (length (promises st)) hs) s)"
    using gp(2) g2(1) by (simp add: settle_rejected_def field_state_def g2(3) forEach_append del: forEach.simps)
  have A: "\<exists>st'. then_all (PromiseRef p) hs st = Some st'
        \<and> trace st' = trace st \<and> tasks st' = tasks st
        \<and> state (promises st' ! p) = PENDING
        \<and> resolvedCallbacks (promises st' ! p) =
            resolvedCallbacks (promises st ! p) @ queued_fulfilled (PromiseRef p) (length (promises st)) hs
        \<and> rejectedCallbacks (promises st' ! p) =
            rejectedCallbacks (promises st ! p) @ queued_rejected (PromiseRef p) (length (promises st)) hs
        \<and> call (Suc n) (ResolveCap p) this [v] st' =
            Some (Returned Undefined, st'\<lparr>tasks := tasks st' @ [SettleResolved p v]\<rparr>)
        \<and> call (Suc n) (RejectCap p) this [v] st' =
            Some (Returned Undefined, st'\<lparr>tasks := tasks st' @ [SettleRejected p v]\<rparr>)
        \<and> (\<forall>c. exec_task c (SettleResolved p v) st' =
              (case forEach c (resolvedCallbacks (promises st ! p))
                      (st'\<lparr>promises := (promises st')[p := (promises st' ! p)\<lparr>state := RESOLVED, value := v\<rparr>]\<rparr>) of
                 None \<Rightarrow> None
               | Some (Threw e, s) \<Rightarrow> Some (Threw e, s)
               | Some (Returned r, s) \<Rightarrow>
                   forEach c (queued_fulfilled (PromiseRef p) (length (promises st)) hs) s))
        \<and> (\<forall>c. exec_task c (SettleRejected p v) st' =
              (case forEach c (rejectedCallbacks (promises st ! p))
                      (st'\<lparr>promises := (promises st')[p := (promises st' ! p)\<lparr>state := REJECTED, reason := v\<rparr>]\<rparr>) of
                 None \<Rightarrow> None
               | Some (Threw e, s) \<Rightarrow> Some (Threw e, s)
               | Some (Returned r, s) \<Rightarrow>
                   forEach c (queued_rejected (PromiseRef p) (length (promises st)) hs) s))"
    apply (rule exI[of _ st'])
    apply (intro conjI)
             apply (rule g0)
            apply (rule g1(1))
           apply (rule g1(2))
          apply (rule g2(1))
         apply (rule g2(2))
        apply (rule g2(3))
       apply (rule g3(1))
      apply (rule g3(2))
     apply (rule g4)
    apply (rule g5)
    done
  have B: "\<forall>c xs ys s. forEach c (xs @ ys) s =
           (case forEach c xs s of
              None \<Rightarrow> None
            | Some (Threw e, s') \<Rightarrow> Some (Threw e, s')
            | Some (Returned r, s') \<Rightarrow> forEach c ys s')"
    using forEach_append by blast
  have C: "\<forall>t m s. forEach (call (Suc n)) (queued_fulfilled t m (emitters es)) s =
           Some (Returned Undefined,
             s\<lparr>flags := flags s @ replicate (length es) False,
               tasks := tasks s @ map (\<lambda>i. SettleResolved i Undefined) [m..<m + length es],
               trace := trace s @ map fst es\<rparr>)"
    using forEach_emitters_fulfilled by blast
  have D: "\<forall>t m s. forEach (call (Suc n)) (queued_rejected t m (emitters es)) s =
           Some (Returned Undefined,
             s\<lparr>flags := flags s @ replicate (length es) False,
               tasks := tasks s @ map (\<lambda>i. SettleResolved i Undefined) [m..<m + length es],
               trace := trace s @ map snd es\<rparr>)"
    using forEach_emitters_rejected by blast
  have E: "(\<exists>st1 st2 st3. then_all (PromiseRef p) (emitters es) st = Some st1
             \<and> call (Suc n) (ResolveCap p) this [v] st1 = Some (Returned Undefined, st2)
             \<and> trace st2 = trace st
             \<and> event_loop (Suc n) (Suc (length es)) st2 = Some (Returned Undefined, st3)
             \<and> tasks st3 = [] \<and> trace st3 = trace st @ map fst es)
        \<and> (\<exists>st1 st2 st3. then_all (PromiseRef p) (emitters es) st = Some st1
             \<and> call (Suc n) (RejectCap p) this [v] st1 = Some (Returned Undefined, st2)
             \<and> trace st2 = trace st
             \<and> event_loop (Suc n) (Suc (length es)) st2 = Some (Returned Undefined, st3)
             \<and> tasks st3 = [] \<and> trace st3 = trace st @ map snd es)"
    if e: "tasks st = []" "resolvedCallbacks (promises st ! p) = []"
          "rejectedCallbacks (promises st ! p) = []"
  proof -
    let ?k = "length es"
    let ?hs = "emitters es"
    have lk: "length ?hs = ?k" by (simp add: emitters_def)
    let ?s1 = "?st' ?hs"
    have s1p: "promises ?s1 = (promises st)[p := ?P ?hs] @ replicate ?k init_promise"
      by (simp add: lk)
    have pend: "state (?P ?hs) = PENDING" using assms(2) by simp
    have t1: "tasks (?s1\<lparr>tasks := []\<rparr>) = []" by simp
    have cr: "call (Suc n) (ResolveCap p) this [v] ?s1 =
        Some (Returned Undefined, ?s1\<lparr>tasks := [SettleResolved p v]\<rparr>)"
      using e(1) by (simp add: call_step_def resolve_cap_def nextTick_def arg_def)
    have cj: "call (Suc n) (RejectCap p) this [v] ?s1 =
        Some (Returned Undefined, ?s1\<lparr>tasks := [SettleRejected p v]\<rparr>)"
      using e(1) by (simp add: call_step_def reject_cap_def nextTick_def arg_def)
    have sr: "settle_resolved (call (Suc n)) p v (?s1\<lparr>tasks := []\<rparr>) =
        Some (Returned Undefined,
          ?s1\<lparr>promises := (promises st)[p := (?P ?hs)\<lparr>state := RESOLVED, value := v\<rparr>] @ replicate ?k init_promise,
             flags := flags st @ replicate ?k False,
             tasks := map (\<lambda>i. SettleResolved i Undefined) [?N..<?N + ?k],
             trace := trace st @ map fst es\<rparr>)"
      using assms e
      by (simp add: settle_resolved_def field_state_def nth_upd_app_p upd_upd_app_p lk
          forEach_emitters_fulfilled del: call.simps)
    have sj: "settle_rejected (call (Suc n)) p v (?s1\<lparr>tasks := []\<rparr>) =
        Some (Returned Undefined,
          ?s1\<lparr>promises := (promises st)[p := (?P ?hs)\<lparr>state := REJECTED, reason := v\<rparr>] @ replicate ?k init_promise,
             flags := flags st @ replicate ?k False,
             tasks := map (\<lambda>i. SettleResolved i Undefined) [?N..<?N + ?k],
             trace := trace st @ map snd es\<rparr>)"
      using assms e
      by (simp add: settle_rejected_def field_state_def nth_upd_app_p upd_upd_app_p lk
          forEach_emitters_rejected del: call.simps)
    from settle_then_drain[where ps = "promises st" and p = p and k = ?k and s = ?s1 and d = "Suc n"
        and P' = "(?P ?hs)\<lparr>state := RESOLVED, value := v\<rparr>" and fl = "flags st @ replicate ?k False" and tr = "trace st @ map fst es"]
    obtain s3 where s3: "event_loop (Suc n) ?k
          (?s1\<lparr>promises := (promises st)[p := (?P ?hs)\<lparr>state := RESOLVED, value := v\<rparr>] @ replicate ?k init_promise,
             flags := flags st @ replicate ?k False,
             tasks := map (\<lambda>i. SettleResolved i Undefined) [?N..<?N + ?k],
             trace := trace st @ map fst es\<rparr>) = Some (Returned Undefined, s3)"
      "tasks s3 = []" "trace s3 = trace st @ map fst es"
      by auto
    from settle_then_drain[where ps = "promises st" and p = p and k = ?k and s = ?s1 and d = "Suc n"
        and P' = "(?P ?hs)\<lparr>state := REJECTED, reason := v\<rparr>" and fl = "flags st @ replicate ?k False" and tr = "trace st @ map snd es"]
    obtain s4 where s4: "event_loop (Suc n) ?k
          (?s1\<lparr>promises := (promises st)[p := (?P ?hs)\<lparr>state := REJECTED, reason := v\<rparr>] @ replicate ?k init_promise,
             flags := flags st @ replicate ?k False,
             tasks := map (\<lambda>i. SettleResolved i Undefined) [?N..<?N + ?k],
             trace := trace st @ map snd es\<rparr>) = Some (Returned Undefined, s4)"
      "tasks s4 = []" "trace s4 = trace st @ map snd es"
      by auto
    have lr: "event_loop (Suc n) (Suc ?k) (?s1\<lparr>tasks := [SettleResolved p v]\<rparr>) = Some (Returned Undefined, s3)"
      using s3(1) sr by (simp del: call.simps)
    have lj: "event_loop (Suc n) (Suc ?k) (?s1\<lparr>tasks := [SettleRejected p v]\<rparr>) = Some (Returned Undefined, s4)"
      using s4(1) sj by (simp del: call.simps)
    have tr: "trace (?s1\<lparr>tasks := [SettleResolved p v]\<rparr>) = trace st"
      "trace (?s1\<lparr>tasks := [SettleRejected p v]\<rparr>) = trace st" by simp_all
    show ?thesis
      using reg[of ?hs] cr cj lr lj s3(2,3) s4(2,3) tr by blast
  qed
  have F: "\<forall>t f g s r s'. promise_then t f g s = Some (r, s') \<longrightarrow> trace s' = trace s"
    by (blast intro: promise_then_trace)
  from A B C D E F show ?thesis by blast
qed

theorem handlers_run_in_registration_order_witness:
  "0 < length (promises pending_machine) \<and> state (promises pending_machine ! 0) = PENDING
   \<and> tasks pending_machine = []
   \<and> resolvedCallbacks (promises pending_machine ! 0) = []
   \<and> rejectedCallbacks (promises pending_machine ! 0) = []
   \<and> (\<exists>st1 st2 st3.
        then_all (PromiseRef 0)
          (emitters [(Str ''h1'', Str ''r1''), (Str ''h2'', Str ''r2''), (Str ''h3'', Str ''r3'')])
          pending_machine = Some st1
      \<and> call 1 (ResolveCap 0) Undefined [Num 7] st1 = Some (Returned Undefined, st2)
      \<and> trace st2 = []
      \<and> event_loop 1 4 st2 = Some (Returned Undefined, st3)
      \<and> tasks st3 = []
      \<and> trace st3 = [Str ''h1'', Str ''h2'', Str ''h3''])"
proof -
  have h: "0 < length (promises pending_machine)" "state (promises pending_machine ! 0) = PENDING"
    by (simp_all add: pending_machine_def init_promise_def)
  have q: "tasks pending_machine = [] \<and> resolvedCallbacks (promises pending_machine ! 0) = []
      \<and> rejectedCallbacks (promises pending_machine ! 0) = []"
    by (simp add: pending_machine_def init_promise_def)
  have t: "trace pending_machine = []" by (simp add: pending_machine_def)
  let ?es = "[(Str ''h1'', Str ''r1''), (Str ''h2'', Str ''r2''), (Str ''h3'', Str ''r3'')]"
  have n: "(4::nat) = Suc (length ?es)" "(1::nat) = Suc 0" by simp_all
  have a: "\<exists>st1 st2 st3.
        then_all (PromiseRef 0) (emitters ?es) pending_machine = Some st1
      \<and> call 1 (ResolveCap 0) Undefined [Num 7] st1 = Some (Returned Undefined, st2)
      \<and> trace st2 = []
      \<and> event_loop 1 4 st2 = Some (Returned Undefined, st3)
      \<and> tasks st3 = []
      \<and> trace st3 = [Str ''h1'', Str ''h2'', Str ''h3'']"
    using handlers_run_in_registration_order [OF h, where hs = "[]" and n = 0 and this = Undefined and v = "Num 7" and es = ?es,
        THEN conjunct2, THEN conjunct2, THEN conjunct2, THEN conjunct2, THEN conjunct1,
        rule_format, OF q, THEN conjunct1]
    unfolding n t by (simp del: call.simps)
  from h q a show ?thesis by blast
qed

text \<open>
  C5. A thenable whose \<^verbatim>\<open>then\<close> calls its two callbacks any number of times, in any
  order, and may throw at the end: resolving with it has the effect of its first call
  alone (resolving with \<open>v\<close> if that call was the first callback, rejecting with \<open>v\<close> if
  it was the second), whatever follows. An error thrown by \<^verbatim>\<open>then\<close> before any callback
  was called, or by reading the \<^verbatim>\<open>then\<close> member, rejects \<open>promise2\<close>. A callback whose
  flag is set returns at once and changes nothing, and a call of either callback leaves
  the flag set.
\<close>

theorem resolution_guard_first_call_only:
  assumes "final = [] \<or> final = [Throw (Const e)]"
  shows "resolvePromise (call (Suc (Suc n))) p2 (misbehaving ((0, v) # calls) final) res rej st =
           (case resolvePromise (call n) p2 v res rej (st\<lparr>flags := flags st @ [True]\<rparr>) of
              None \<Rightarrow> None
            | Some (r, st') \<Rightarrow> Some (Returned Undefined, st'))
       \<and> resolvePromise (call (Suc (Suc n))) p2 (misbehaving ((1, v) # calls) final) res rej st =
           (case call_val (call n) rej Undefined [v] (st\<lparr>flags := flags st @ [True]\<rparr>) of
              None \<Rightarrow> None
            | Some (r, st') \<Rightarrow> Some (Returned Undefined, st'))
       \<and> (\<not> isObject v \<and> \<not> isFunction v \<longrightarrow>
            resolvePromise (call (Suc (Suc (Suc n)))) p2 (misbehaving ((0, v) # calls) final)
              (Fun (ResolveCap p2)) (Fun (RejectCap p2)) st =
            Some (Returned Undefined,
              st\<lparr>flags := flags st @ [True, False], tasks := tasks st @ [SettleResolved p2 v]\<rparr>))
       \<and> resolvePromise (call (Suc (Suc (Suc n)))) p2 (misbehaving ((1, v) # calls) final)
              (Fun (ResolveCap p2)) (Fun (RejectCap p2)) st =
            Some (Returned Undefined,
              st\<lparr>flags := flags st @ [True], tasks := tasks st @ [SettleRejected p2 v]\<rparr>)
       \<and> resolvePromise (call (Suc n)) p2 (misbehaving [] [Throw (Const v)]) res (Fun (RejectCap p2)) st =
            Some (Returned Undefined,
              st\<lparr>flags := flags st @ [True], tasks := tasks st @ [SettleRejected p2 v]\<rparr>)
       \<and> resolvePromise (call (Suc n)) p2 (Obj (GetterThrows v)) res (Fun (RejectCap p2)) st =
            Some (Returned Undefined,
              st\<lparr>flags := flags st @ [True], tasks := tasks st @ [SettleRejected p2 v]\<rparr>)
       \<and> (flag_set st called \<longrightarrow>
            call (Suc n) (OnInnerFulfilled called p2 res rej) this args st = Some (Returned Undefined, st) \<and>
            call (Suc n) (OnInnerRejected called rej) this args st = Some (Returned Undefined, st))
       \<and> (called < length (flags st) \<longrightarrow>
            (\<forall>d r st'. call d (OnInnerFulfilled called p2 res rej) this args st = Some (r, st')
                \<longrightarrow> flag_set st' called) \<and>
            (\<forall>d r st'. call d (OnInnerRejected called rej) this args st = Some (r, st')
                \<longrightarrow> flag_set st' called))"
proof -
  note a = misbehaving_first_fulfil[OF assms, of n p2 v calls res rej st]
  note b = misbehaving_first_reject[OF assms, of n p2 v calls res rej st]
  have a': "\<not> isObject v \<and> \<not> isFunction v \<longrightarrow>
            resolvePromise (call (Suc (Suc (Suc n)))) p2 (misbehaving ((0, v) # calls) final)
              (Fun (ResolveCap p2)) (Fun (RejectCap p2)) st =
            Some (Returned Undefined,
              st\<lparr>flags := flags st @ [True, False], tasks := tasks st @ [SettleResolved p2 v]\<rparr>)"
    unfolding misbehaving_first_fulfil[OF assms]
    by (simp add: resolve_plain del: call.simps)
  have b': "resolvePromise (call (Suc (Suc (Suc n)))) p2 (misbehaving ((1, v) # calls) final)
              (Fun (ResolveCap p2)) (Fun (RejectCap p2)) st =
            Some (Returned Undefined,
              st\<lparr>flags := flags st @ [True], tasks := tasks st @ [SettleRejected p2 v]\<rparr>)"
    unfolding misbehaving_first_reject[OF assms]
    by (simp add: call_val_def call_step_def reject_cap_def nextTick_def arg_def)
  have c: "resolvePromise (call (Suc n)) p2 (misbehaving [] [Throw (Const v)]) res (Fun (RejectCap p2)) st =
            Some (Returned Undefined,
              st\<lparr>flags := flags st @ [True], tasks := tasks st @ [SettleRejected p2 v]\<rparr>)"
    by (simp add: resolvePromise_def misbehaving_def invocations_def try_then_def Let_def
        call_val_def call_step_def discard_def flag_set_def set_flag_def reject_cap_def nextTick_def arg_def)
  have d: "resolvePromise (call (Suc n)) p2 (Obj (GetterThrows v)) res (Fun (RejectCap p2)) st =
            Some (Returned Undefined,
              st\<lparr>flags := flags st @ [True], tasks := tasks st @ [SettleRejected p2 v]\<rparr>)"
    by (simp add: resolvePromise_def try_then_def Let_def
        call_val_def call_step_def discard_def flag_set_def set_flag_def reject_cap_def nextTick_def arg_def)
  have e: "flag_set st called \<longrightarrow>
            call (Suc n) (OnInnerFulfilled called p2 res rej) this args st = Some (Returned Undefined, st) \<and>
            call (Suc n) (OnInnerRejected called rej) this args st = Some (Returned Undefined, st)"
    using call_inner_ignored by blast
  have f: "called < length (flags st) \<longrightarrow>
            (\<forall>d r st'. call d (OnInnerFulfilled called p2 res rej) this args st = Some (r, st')
                \<longrightarrow> flag_set st' called) \<and>
            (\<forall>d r st'. call d (OnInnerRejected called rej) this args st = Some (r, st')
                \<longrightarrow> flag_set st' called)"
    using inner_sets_flag by blast
  from a b a' b' c d e f show ?thesis by blast
qed

theorem resolution_guard_first_call_only_witness:
  "([Throw (Const (Num 9))] = [] \<or> [Throw (Const (Num 9))] = [Throw (Const (Num 9))])
   \<and> resolvePromise (call 3) 0
        (misbehaving [(0, Num 1), (1, Num 2), (0, Num 3), (1, Num 4)] [Throw (Const (Num 9))])
        (Fun (ResolveCap 0)) (Fun (RejectCap 0)) pending_machine =
      Some (Returned Undefined,
        pending_machine\<lparr>flags := [True, False], tasks := [SettleResolved 0 (Num 1)]\<rparr>)
   \<and> resolvePromise (call 3) 0
        (misbehaving [(1, Num 2), (0, Num 1), (1, Num 4)] [Throw (Const (Num 9))])
        (Fun (ResolveCap 0)) (Fun (RejectCap 0)) pending_machine =
      Some (Returned Undefined,
        pending_machine\<lparr>flags := [True], tasks := [SettleRejected 0 (Num 2)]\<rparr>)"
proof -
  have h: "[Throw (Const (Num 9))] = [] \<or> [Throw (Const (Num 9))] = [Throw (Const (Num 9))]" by simp
  have n3: "(3::nat) = Suc (Suc (Suc 0))" by simp
  from resolution_guard_first_call_only [OF h, of 0 0 "Num 1" "[(1, Num 2), (0, Num 3), (1, Num 4)]" _ _ pending_machine]
    resolution_guard_first_call_only [OF h, of 0 0 "Num 2" "[(0, Num 1), (1, Num 4)]" _ _ pending_machine]
  show ?thesis unfolding n3
    by (simp add: pending_machine_def del: call.simps)
qed

text \<open>
  C6. Whenever the handler called by a closure of \<^verbatim>\<open>then\<close> throws \<open>e\<close>, the closure
  calls \<^verbatim>\<open>reject(e)\<close> of the promise \<^verbatim>\<open>then\<close> returned. From a settled promise,
  \<^verbatim>\<open>p.then(h, h)\<close> with \<open>h\<close> throwing an error object of message \<open>m\<close> gives a promise
  rejected with exactly that object, and \<^verbatim>\<open>.then(null, e => e.message)\<close> on it gives a
  promise fulfilled with \<open>m\<close>.
\<close>

theorem handler_error_rejects_returned_promise:
  assumes "tasks st = []" and "p < length (promises st)" and "state (promises st ! p) \<noteq> PENDING"
  shows "(\<forall>h x e s s1 p2 res.
            call_val (call (Suc n)) h Undefined [x] s = Some (Threw e, s1) \<longrightarrow>
            handle (call (Suc n)) h x p2 res (Fun (RejectCap p2)) s =
              Some (Returned Undefined, s1\<lparr>tasks := tasks s1 @ [SettleRejected p2 e]\<rparr>))
       \<and> (\<exists>st1 st2 st3.
            promise_then (PromiseRef p) (Fun (User [Throw (Const (ErrorObj nm m))]))
              (Fun (User [Throw (Const (ErrorObj nm m))])) st =
              Some (PromiseRef (length (promises st)), st1)
          \<and> promise_then (PromiseRef (length (promises st))) Null
              (Fun (User [Return (Message (Arg 0))])) st1 =
              Some (PromiseRef (Suc (length (promises st))), st2)
          \<and> event_loop (Suc n) 3 st2 = Some (Returned Undefined, st3)
          \<and> tasks st3 = []
          \<and> state (promises st3 ! length (promises st)) = REJECTED
          \<and> reason (promises st3 ! length (promises st)) = ErrorObj nm m
          \<and> state (promises st3 ! Suc (length (promises st))) = RESOLVED
          \<and> value (promises st3 ! Suc (length (promises st))) = Str m)"
proof (rule conjI)
  show "\<forall>h x e s s1 p2 res.
            call_val (call (Suc n)) h Undefined [x] s = Some (Threw e, s1) \<longrightarrow>
            handle (call (Suc n)) h x p2 res (Fun (RejectCap p2)) s =
              Some (Returned Undefined, s1\<lparr>tasks := tasks s1 @ [SettleRejected p2 e]\<rparr>)"
    using handle_throws by blast
next
  have msg: "call_val (call (Suc n)) (Fun (User [Return (Message (Arg 0))])) Undefined [ErrorObj nm m] s =
     Some (Returned (Str m), s)" for s
    by (rule call_user_message)
  show "\<exists>st1 st2 st3.
            promise_then (PromiseRef p) (Fun (User [Throw (Const (ErrorObj nm m))]))
              (Fun (User [Throw (Const (ErrorObj nm m))])) st =
              Some (PromiseRef (length (promises st)), st1)
          \<and> promise_then (PromiseRef (length (promises st))) Null
              (Fun (User [Return (Message (Arg 0))])) st1 =
              Some (PromiseRef (Suc (length (promises st))), st2)
          \<and> event_loop (Suc n) 3 st2 = Some (Returned Undefined, st3)
          \<and> tasks st3 = []
          \<and> state (promises st3 ! length (promises st)) = REJECTED
          \<and> reason (promises st3 ! length (promises st)) = ErrorObj nm m
          \<and> state (promises st3 ! Suc (length (promises st))) = RESOLVED
          \<and> value (promises st3 ! Suc (length (promises st))) = Str m"
  proof (cases "state (promises st ! p)")
    case PENDING
    with assms show ?thesis by simp
  next
    case RESOLVED
    with assms show ?thesis
      by (simp add: run_simps msg numeral_3_eq_3 del: call.simps)
  next
    case REJECTED
    with assms show ?thesis
      by (simp add: run_simps msg numeral_3_eq_3 del: call.simps)
  qed
qed

theorem handler_error_rejects_returned_promise_witness:
  "tasks settled_machine = [] \<and> 0 < length (promises settled_machine)
   \<and> state (promises settled_machine ! 0) \<noteq> PENDING
   \<and> (\<exists>st1 st2 st3.
        promise_then (PromiseRef 0) (Fun (User [Throw (Const (ErrorObj ''Error'' ''x''))]))
          (Fun (User [Throw (Const (ErrorObj ''Error'' ''x''))])) settled_machine = Some (PromiseRef 1, st1)
      \<and> promise_then (PromiseRef 1) Null (Fun (User [Return (Message (Arg 0))])) st1 = Some (PromiseRef 2, st2)
      \<and> event_loop 1 3 st2 = Some (Returned Undefined, st3)
      \<and> state (promises st3 ! 1) = REJECTED
      \<and> reason (promises st3 ! 1) = ErrorObj ''Error'' ''x''
      \<and> state (promises st3 ! 2) = RESOLVED
      \<and> value (promises st3 ! 2) = Str ''x'')"
proof -
  have h: "tasks settled_machine = []" "0 < length (promises settled_machine)"
    "state (promises settled_machine ! 0) \<noteq> PENDING"
    by (simp_all add: settled_machine_def)
  have l: "length (promises settled_machine) = 1" by (simp add: settled_machine_def)
  have n: "(2::nat) = Suc 1" "(1::nat) = Suc 0" by simp_all
  from handler_error_rejects_returned_promise [OF h, of 0 "''Error''" "''x''", THEN conjunct2]
  show ?thesis using h unfolding l n by (auto simp del: call.simps)
qed

text \<open>
  C7. When the executor throws \<open>e\<close>, the constructor calls \<^verbatim>\<open>reject(e)\<close>: the machine is
  the one a call of the \<^verbatim>\<open>reject\<close> capability with \<open>e\<close> gives. An executor that only
  throws \<open>e\<close> builds the same machine as one that only calls \<^verbatim>\<open>reject(e)\<close>, and the
  promise ends rejected with \<open>e\<close>.
\<close>

theorem executor_error_rejects_promise:
  assumes "tasks st = []"
  shows "(\<forall>executor e s1.
            executor (Fun (ResolveCap (length (promises st)))) (Fun (RejectCap (length (promises st))))
              (st\<lparr>promises := promises st @ [init_promise]\<rparr>) = Some (Threw e, s1) \<longrightarrow>
            new_Promise executor st = Some (PromiseRef (length (promises st)), reject_cap (length (promises st)) e s1)
          \<and> call (Suc n) (RejectCap (length (promises st))) this [e] s1 =
              Some (Returned Undefined, reject_cap (length (promises st)) e s1))
       \<and> new_Promise (user_executor (call (Suc (Suc n))) (Fun (User [Throw (Const e)]))) st =
         new_Promise (user_executor (call (Suc (Suc n))) (Fun (User [Invoke (Arg 1) [Const e]]))) st
       \<and> (\<exists>st1 st2.
            new_Promise (user_executor (call (Suc (Suc n))) (Fun (User [Throw (Const e)]))) st =
              Some (PromiseRef (length (promises st)), st1)
          \<and> state (promises st1 ! length (promises st)) = PENDING
          \<and> event_loop d 1 st1 = Some (Returned Undefined, st2)
          \<and> tasks st2 = []
          \<and> state (promises st2 ! length (promises st)) = REJECTED
          \<and> reason (promises st2 ! length (promises st)) = e
          \<and> value (promises st2 ! length (promises st)) = Undefined)"
proof (intro conjI)
  show "\<forall>executor e s1.
            executor (Fun (ResolveCap (length (promises st)))) (Fun (RejectCap (length (promises st))))
              (st\<lparr>promises := promises st @ [init_promise]\<rparr>) = Some (Threw e, s1) \<longrightarrow>
            new_Promise executor st = Some (PromiseRef (length (promises st)), reject_cap (length (promises st)) e s1)
          \<and> call (Suc n) (RejectCap (length (promises st))) this [e] s1 =
              Some (Returned Undefined, reject_cap (length (promises st)) e s1)"
    by (simp add: new_Promise_def Let_def call_step_def arg_def)
next
  show "new_Promise (user_executor (call (Suc (Suc n))) (Fun (User [Throw (Const e)]))) st =
         new_Promise (user_executor (call (Suc (Suc n))) (Fun (User [Invoke (Arg 1) [Const e]]))) st"
    by (simp add: new_Promise_throwing new_Promise_rejecting del: call.simps)
next
  show "\<exists>st1 st2.
            new_Promise (user_executor (call (Suc (Suc n))) (Fun (User [Throw (Const e)]))) st =
              Some (PromiseRef (length (promises st)), st1)
          \<and> state (promises st1 ! length (promises st)) = PENDING
          \<and> event_loop d 1 st1 = Some (Returned Undefined, st2)
          \<and> tasks st2 = []
          \<and> state (promises st2 ! length (promises st)) = REJECTED
          \<and> reason (promises st2 ! length (promises st)) = e
          \<and> value (promises st2 ! length (promises st)) = Undefined"
    using assms by (simp add: run_simps del: call.simps)
qed

theorem executor_error_rejects_promise_witness:
  "tasks empty_machine = []
   \<and> (\<exists>st1 st2.
        new_Promise (user_executor (call 2) (Fun (User [Throw (Const (ErrorObj ''Error'' ''boom''))]))) empty_machine =
          Some (PromiseRef 0, st1)
      \<and> event_loop 0 1 st1 = Some (Returned Undefined, st2)
      \<and> state (promises st2 ! 0) = REJECTED
      \<and> reason (promises st2 ! 0) = ErrorObj ''Error'' ''boom'')"
proof -
  have h: "tasks empty_machine = []" by (simp add: empty_machine_def)
  have l: "length (promises empty_machine) = 0" by (simp add: empty_machine_def)
  have n: "(2::nat) = Suc (Suc 0)" by simp
  from executor_error_rejects_promise [OF h, of 0 _ "ErrorObj ''Error'' ''boom''" 0, THEN conjunct2, THEN conjunct2]
  show ?thesis using h unfolding l n by (auto simp del: call.simps)
qed





text \<open>
  C10. When the arguments of \<^verbatim>\<open>then\<close> are present but are not functions, each is
  replaced by its default handler: the call is the call \<^verbatim>\<open>then()\<close> without handlers,
  the handlers it registers are the identity and the re-raise, and the call returns the
  new promise without raising.
\<close>

theorem then_non_function_handlers:
  assumes "\<not> isFunction a" and "\<not> isFunction b"
  shows "promise_then this a b st = promise_then this Undefined Undefined st
       \<and> promise_then this a b st =
           new_Promise (then_executor this (Fun (User [Return (Arg 0)])) (Fun (User [Throw (Arg 0)]))
             (length (promises st))) st
       \<and> (\<exists>st'. promise_then this a b st = Some (PromiseRef (length (promises st)), st'))
       \<and> call (Suc n) (User [Return (Arg 0)]) t [v] s = Some (Returned v, s)
       \<and> call (Suc n) (User [Throw (Arg 0)]) t [v] s = Some (Threw v, s)"
  using assms
  by (simp add: promise_then_def new_Promise_def then_executor_def Let_def call_step_def arg_def)

theorem then_non_function_handlers_witness:
  "\<not> isFunction (Num 5) \<and> \<not> isFunction (Str ''x'')
   \<and> promise_then (PromiseRef 0) (Num 5) (Str ''x'') empty_machine =
       promise_then (PromiseRef 0) Undefined Undefined empty_machine"
  using then_non_function_handlers [of "Num 5" "Str ''x''" "PromiseRef 0" empty_machine]
  by simp

end
